theory Spec2Isabelle
  imports Main "HOL-Library.Word"
begin

section \<open>Common ground: bytes, errors, the C library\<close>

text \<open>
  Both containers are type erased: they store blocks of bytes whose size is fixed when
  the container is created. A block of memory is a list of bytes.

  Sizes (\<open>size_t\<close>) are modelled by \<open>nat\<close>, with the unsigned wrap-around written out
  where the code computes below zero (\<open>cv->size - 1\<close> in \<open>cvec_nth\<close>). The running hash
  code is an \<open>unsigned long\<close> that wraps by design, so it is a 64 bit word.
  \<open>malloc\<close>, \<open>calloc\<close> and \<open>realloc\<close> are taken to succeed (the code asserts it).
  A C string is modelled by the list of its characters before the terminator.

  The code keeps counts, indices and loop counters in \<open>int\<close> and mixes them with \<open>size_t\<close>.
  An \<open>int\<close> value is modelled by an \<open>int\<close> of HOL, and every conversion is written out as
  gcc performs it on x86-64: a \<open>size_t\<close> or \<open>unsigned long\<close> converted to \<open>int\<close> is reduced
  modulo \<open>2\<^sup>3\<^sup>2\<close> into the signed range, an \<open>int\<close> converted to \<open>size_t\<close> is reduced modulo
  \<open>2\<^sup>6\<^sup>4\<close>. Signed overflow and division by zero are undefined behaviour in C; here they
  are errors, as are a failed assertion and an access outside an array.
\<close>

type_synonym byte = "8 word"

datatype error = AssertFail | MemFault | DivByZero | IntOverflow

definition INT_MAX :: int where
  "INT_MAX = 2147483647"

definition INT_MIN :: int where
  "INT_MIN = - 2147483648"

definition int_of_size_t :: "nat \<Rightarrow> int" where
  "int_of_size_t n = sint (word_of_nat n :: 32 word)"

definition size_t_of_int :: "int \<Rightarrow> nat" where
  "size_t_of_int i = unat (word_of_int i :: 64 word)"

text \<open>
  A cleanup callback is a function pointer or \<open>NULL\<close>. What a call of it does is outside
  the containers; the model threads a state \<open>'w\<close> of the outside world through every call,
  and the callback reads the bytes it is pointed at. The bytes themselves are overwritten
  or freed right after each call in the code.
\<close>

type_synonym 'w cleanup = "(byte list \<Rightarrow> 'w \<Rightarrow> 'w) option"

definition call_cleanup :: "'w cleanup \<Rightarrow> byte list \<Rightarrow> 'w \<Rightarrow> 'w" where
  "call_cleanup fn bytes w = (case fn of None \<Rightarrow> w | Some f \<Rightarrow> f bytes w)"

text \<open>
  \<open>strcmp\<close> and \<open>strncmp\<close> of the C library, on strings without their terminator:
  zero when equal (for \<open>strncmp\<close>: on the first \<open>n\<close> characters), negative or positive
  by the first difference, characters compared as unsigned.
\<close>

fun strcmp :: "string \<Rightarrow> string \<Rightarrow> int" where
  "strcmp [] [] = 0"
| "strcmp [] (c2 # s2) = -1"
| "strcmp (c1 # s1) [] = 1"
| "strcmp (c1 # s1) (c2 # s2) =
     (if c1 = c2 then strcmp s1 s2
      else if (of_char c1 :: nat) < of_char c2 then -1 else 1)"

fun strncmp :: "string \<Rightarrow> string \<Rightarrow> nat \<Rightarrow> int" where
  "strncmp s1 s2 0 = 0"
| "strncmp [] [] (Suc n) = 0"
| "strncmp [] (c2 # s2) (Suc n) = -1"
| "strncmp (c1 # s1) [] (Suc n) = 1"
| "strncmp (c1 # s1) (c2 # s2) (Suc n) =
     (if c1 = c2 then strncmp s1 s2 n
      else if (of_char c1 :: nat) < of_char c2 then -1 else 1)"

definition strlen :: "string \<Rightarrow> nat" where
  "strlen s = length s"

section \<open>cmap.c: the hash table\<close>

subsection \<open>Data\<close>

text \<open>
  A blob is one heap block: next pointer, key, value. The bucket array holds the head
  pointer of each chain. A pointer to a blob is modelled by the chain that starts at that
  blob: \<open>[]\<close> is \<open>NULL\<close>, and \<open>blob # nxt\<close> points to \<open>blob\<close> whose next field points
  to \<open>nxt\<close>. So \<open>get_next\<close> of the code is the tail, and \<open>set_next\<close> is consing.
\<close>

datatype blob = Blob (get_key: string) (get_value: "byte list")

type_synonym chain = "blob list"

record 'w cmap =
  buckets :: "chain list"
  nbuckets :: nat
  valsz :: nat
  count :: int
  clean :: "'w cleanup"

definition DEFAULT_CAPACITY_cmap :: nat where
  "DEFAULT_CAPACITY_cmap = 1023"

subsection \<open>hash\<close>

text \<open>
  \<open>hashcode = hashcode * MULTIPLIER + s[i]\<close> in \<open>unsigned long\<close>; \<open>s[i]\<close> is a \<open>char\<close>,
  signed on the x86-64 ABI, so it is sign extended. The loop counter is an \<open>int\<close>: on a
  string of more than \<open>INT_MAX\<close> characters it overflows. The result is
  \<open>hashcode % nbuckets\<close>, computed in \<open>unsigned long\<close> from the \<open>int\<close> parameter \<open>nbuckets\<close>
  (here \<open>nb\<close>) and returned as an \<open>int\<close>.
\<close>

definition MULTIPLIER :: "64 word" where
  "MULTIPLIER = 2630849305"

fun hash_loop :: "string \<Rightarrow> 64 word \<Rightarrow> 64 word" where
  "hash_loop [] hashcode = hashcode"
| "hash_loop (c # s) hashcode =
     hash_loop s (hashcode * MULTIPLIER + scast (of_char c :: 8 word))"

definition hash :: "string \<Rightarrow> int \<Rightarrow> error + int" where
  "hash s nb =
     (if INT_MAX < int (length s) then Inl IntOverflow
      else if size_t_of_int nb = 0 then Inl DivByZero
      else Inr (int_of_size_t (unat (hash_loop s 0) mod size_t_of_int nb)))"

subsection \<open>Blobs\<close>

text \<open>
  \<open>set_value\<close> copies \<open>valsz\<close> bytes from the caller's address into the blob: the list
  \<open>val\<close> stands for the memory at that address, and its first \<open>valsz\<close> bytes are stored.
  \<open>create_blob\<close> allocates the block, with the key and then the value in it; its next
  pointer is set by \<open>cmap_put\<close>, which puts the blob in front of the chain.
\<close>

definition set_value :: "'w cmap \<Rightarrow> blob \<Rightarrow> byte list \<Rightarrow> blob" where
  "set_value cm blob val = Blob (get_key blob) (take (valsz cm) val)"

definition create_blob :: "'w cmap \<Rightarrow> string \<Rightarrow> byte list \<Rightarrow> blob" where
  "create_blob cm key val = set_value cm (Blob key []) val"

subsection \<open>Operations\<close>

definition cmap_create :: "nat \<Rightarrow> nat \<Rightarrow> 'w cleanup \<Rightarrow> error + 'w cmap" where
  "cmap_create valuesz capacity_hint fn =
     (if valuesz = 0 then Inl AssertFail
      else let capacity = (if capacity_hint = 0 then DEFAULT_CAPACITY_cmap else capacity_hint)
           in Inr \<lparr>buckets = replicate capacity [], nbuckets = capacity,
                    valsz = valuesz, count = 0, clean = fn\<rparr>)"

definition cmap_count :: "'w cmap \<Rightarrow> int" where
  "cmap_count cm = count cm"

text \<open>
  The loop of \<open>cmap_put\<close> over the chain of the key's bucket. It returns \<open>None\<close> when it
  falls off the chain, and otherwise the chain with the found blob's value replaced,
  and the world after the cleanup call on the old value.
\<close>

fun put_loop :: "'w cmap \<Rightarrow> string \<Rightarrow> byte list \<Rightarrow> chain \<Rightarrow> 'w \<Rightarrow> (chain \<times> 'w) option" where
  "put_loop cm key addr [] w = None"
| "put_loop cm key addr (temp # nxt) w =
     (if strcmp (get_key temp) key = 0
      then Some (set_value cm temp addr # nxt, call_cleanup (clean cm) (get_value temp) w)
      else (case put_loop cm key addr nxt w of
              None \<Rightarrow> None
            | Some (nxt', w') \<Rightarrow> Some (temp # nxt', w')))"

text \<open>
  \<open>cm->buckets[i]\<close> with an \<open>int\<close> index: a read outside the array is a fault. The bucket
  count is a \<open>size_t\<close> that \<open>cmap_put\<close>, \<open>cmap_get\<close> and \<open>cmap_next\<close> hand to the \<open>int\<close>
  parameter of \<open>hash\<close>. \<open>cm->count\<close> is an \<open>int\<close>, incremented for a new key.
\<close>

definition bucket_at :: "'w cmap \<Rightarrow> int \<Rightarrow> error + chain" where
  "bucket_at cm i =
     (if 0 \<le> i \<and> nat i < length (buckets cm) then Inr (buckets cm ! nat i) else Inl MemFault)"

definition cmap_put ::
  "'w cmap \<Rightarrow> string \<Rightarrow> byte list \<Rightarrow> 'w \<Rightarrow> error + ('w cmap \<times> 'w)" where
  "cmap_put cm key addr w =
     (case hash key (int_of_size_t (nbuckets cm)) of
        Inl e \<Rightarrow> Inl e
      | Inr bucket_num \<Rightarrow>
          (case bucket_at cm bucket_num of
             Inl e \<Rightarrow> Inl e
           | Inr temp \<Rightarrow>
               (case put_loop cm key addr temp w of
                  Some (chain', w') \<Rightarrow>
                    Inr (cm\<lparr>buckets := (buckets cm)[nat bucket_num := chain']\<rparr>, w')
                | None \<Rightarrow>
                    (let blob = create_blob cm key addr;
                         start = temp
                     in if INT_MAX \<le> count cm then Inl IntOverflow
                        else Inr (cm\<lparr>buckets := (buckets cm)[nat bucket_num := blob # start],
                                     count := count cm + 1\<rparr>, w)))))"

text \<open>\<open>cmap_get\<close> returns the address of the value; the model returns the bytes there.\<close>

fun get_loop :: "string \<Rightarrow> chain \<Rightarrow> byte list option" where
  "get_loop key [] = None"
| "get_loop key (temp # nxt) =
     (if strncmp (get_key temp) key (strlen key) = 0 then Some (get_value temp)
      else get_loop key nxt)"

definition cmap_get :: "'w cmap \<Rightarrow> string \<Rightarrow> error + byte list option" where
  "cmap_get cm key =
     (case hash key (int_of_size_t (nbuckets cm)) of
        Inl e \<Rightarrow> Inl e
      | Inr bucket_num \<Rightarrow>
          (case bucket_at cm bucket_num of
             Inl e \<Rightarrow> Inl e
           | Inr temp \<Rightarrow> Inr (get_loop key temp)))"

text \<open>
  \<open>cmap_first\<close> and \<open>cmap_next\<close> return the address of a key, which lies at a fixed offset
  in its blob, so a key pointer is a pointer to a blob that is not \<open>NULL\<close>: the blob and
  the chain its next field points to. The caller reads the key string through it.
\<close>

type_synonym keyptr = "blob \<times> chain"

fun key_ptr :: "chain \<Rightarrow> keyptr option" where
  "key_ptr [] = None"
| "key_ptr (blob # nxt) = Some (blob, nxt)"

definition key_at :: "keyptr \<Rightarrow> string" where
  "key_at p = get_key (fst p)"

text \<open>
  The bucket scans of \<open>cmap_first\<close> and \<open>cmap_next\<close>: the counter is an \<open>int\<close>, converted to
  \<open>size_t\<close> for the comparison with the bucket count; to increment it at \<open>INT_MAX\<close> is an
  overflow. \<open>cmap_next\<close> starts its scan at \<open>start_bucket + 1\<close>, an \<open>int\<close> addition.
\<close>

function first_loop :: "'w cmap \<Rightarrow> int \<Rightarrow> error + keyptr option" where
  "first_loop cm i =
     (if size_t_of_int i < nbuckets cm
      then (case bucket_at cm i of
              Inl e \<Rightarrow> Inl e
            | Inr bucket \<Rightarrow>
                if bucket \<noteq> [] then Inr (key_ptr bucket)
                else if INT_MAX \<le> i then Inl IntOverflow
                else first_loop cm (i + 1))
      else Inr None)"
  by pat_completeness auto
termination
  by (relation "measure (\<lambda>(cm, i). nat (INT_MAX - i))") auto

definition cmap_first :: "'w cmap \<Rightarrow> error + keyptr option" where
  "cmap_first cm = first_loop cm 0"

function next_loop :: "'w cmap \<Rightarrow> int \<Rightarrow> error + keyptr option" where
  "next_loop cm i =
     (if size_t_of_int i < nbuckets cm
      then (case bucket_at cm i of
              Inl e \<Rightarrow> Inl e
            | Inr bucket \<Rightarrow>
                if bucket = [] then
                  (if INT_MAX \<le> i then Inl IntOverflow else next_loop cm (i + 1))
                else Inr (key_ptr bucket))
      else Inr None)"
  by pat_completeness auto
termination
  by (relation "measure (\<lambda>(cm, i). nat (INT_MAX - i))") auto

definition cmap_next :: "'w cmap \<Rightarrow> keyptr \<Rightarrow> error + keyptr option" where
  "cmap_next cm prevkey =
     (case prevkey of (blob, nxt) \<Rightarrow>
        if nxt \<noteq> [] then Inr (key_ptr nxt)
        else (case hash (get_key blob) (int_of_size_t (nbuckets cm)) of
                Inl e \<Rightarrow> Inl e
              | Inr start_bucket \<Rightarrow>
                  if INT_MAX \<le> start_bucket then Inl IntOverflow
                  else next_loop cm (start_bucket + 1)))"

text \<open>
  \<open>cmap_dispose\<close>: the inner loop drains one chain, the outer loop visits the buckets in
  index order with an \<open>int\<close> counter. Everything is freed; what remains is the world
  after the cleanup calls.
\<close>

fun drain :: "'w cleanup \<Rightarrow> chain \<Rightarrow> 'w \<Rightarrow> 'w" where
  "drain fn [] w = w"
| "drain fn (blob # nxt) w = drain fn nxt (call_cleanup fn (get_value blob) w)"

function dispose_loop :: "'w cmap \<Rightarrow> int \<Rightarrow> 'w \<Rightarrow> error + 'w" where
  "dispose_loop cm i w =
     (if size_t_of_int i < nbuckets cm
      then (case bucket_at cm i of
              Inl e \<Rightarrow> Inl e
            | Inr bucket \<Rightarrow>
                if INT_MAX \<le> i then Inl IntOverflow
                else dispose_loop cm (i + 1) (drain (clean cm) bucket w))
      else Inr w)"
  by pat_completeness auto
termination
  by (relation "measure (\<lambda>(cm, i, w). nat (INT_MAX - i))") auto

definition cmap_dispose :: "'w cmap \<Rightarrow> 'w \<Rightarrow> error + 'w" where
  "cmap_dispose cm w = dispose_loop cm 0 w"

subsection \<open>Callers: a run of puts, a full traversal\<close>

fun cmap_puts ::
  "'w cmap \<Rightarrow> (string \<times> byte list) list \<Rightarrow> 'w \<Rightarrow> error + ('w cmap \<times> 'w)" where
  "cmap_puts cm [] w = Inr (cm, w)"
| "cmap_puts cm ((key, addr) # ops) w =
     (case cmap_put cm key addr w of
        Inl e \<Rightarrow> Inl e
      | Inr (cm', w') \<Rightarrow> cmap_puts cm' ops w')"

text \<open>
  The caller's loop \<open>for (k = cmap_first(cm); k != NULL; k = cmap_next(cm, k))\<close>,
  collecting the keys it visits. The loop need not end on a table that is not well
  formed, so it runs on fuel: \<open>None\<close> when the fuel runs out before \<open>NULL\<close> is reached,
  and otherwise the keys, or the error of the call that failed.
\<close>

fun cmap_walk ::
  "nat \<Rightarrow> 'w cmap \<Rightarrow> error + keyptr option \<Rightarrow> (error + string list) option" where
  "cmap_walk fuel cm (Inl e) = Some (Inl e)"
| "cmap_walk fuel cm (Inr None) = Some (Inr [])"
| "cmap_walk 0 cm (Inr (Some k)) = None"
| "cmap_walk (Suc fuel) cm (Inr (Some k)) =
     (case cmap_walk fuel cm (cmap_next cm k) of
        None \<Rightarrow> None
      | Some (Inl e) \<Rightarrow> Some (Inl e)
      | Some (Inr ks) \<Rightarrow> Some (Inr (key_at k # ks)))"

definition cmap_traverse :: "nat \<Rightarrow> 'w cmap \<Rightarrow> (error + string list) option" where
  "cmap_traverse fuel cm = cmap_walk fuel cm (cmap_first cm)"

section \<open>cvector.c: the dynamic array\<close>

subsection \<open>Data\<close>

text \<open>
  \<open>data\<close> is the heap buffer, \<open>capacity * elemsz\<close> bytes. A pointer into the buffer is
  modelled by its byte offset from \<open>cv->data\<close>, an \<open>int\<close>; a pointer that may be \<open>NULL\<close>
  is an option. The code computes an offset in \<open>size_t\<close>, modulo \<open>2\<^sup>6\<^sup>4\<close>; the model
  keeps the offset itself, which names the same address as long as the buffer lies
  within the address space. \<open>cvec_sort\<close> (a call of \<open>qsort\<close>) and the empty \<open>cvec_replace\<close> and
  \<open>cvec_remove\<close> play no part below and are left out.
\<close>

record 'w cvector =
  data :: "byte list"
  size_cv :: nat
  capacity :: nat
  elemsz :: nat
  clean_cv :: "'w cleanup"

definition DEFAULT_CAPACITY_cvec :: nat where
  "DEFAULT_CAPACITY_cvec = 16"

subsection \<open>Memory\<close>

text \<open>
  \<open>memmove\<close> and \<open>memcpy\<close> on the buffer. A range that leaves the buffer, or a source
  object shorter than the bytes read from it, is undefined behaviour in C and a fault
  here. \<open>memmove\<close> reads the source range before it writes, so the ranges may overlap.
  \<open>realloc\<close> keeps the old bytes; the new ones are indeterminate in C and zero here.
\<close>

definition in_buf :: "byte list \<Rightarrow> int \<Rightarrow> nat \<Rightarrow> bool" where
  "in_buf mem p n = (0 \<le> p \<and> nat p + n \<le> length mem)"

definition memmove :: "byte list \<Rightarrow> int \<Rightarrow> int \<Rightarrow> nat \<Rightarrow> error + byte list" where
  "memmove mem dest src n =
     (if in_buf mem dest n \<and> in_buf mem src n
      then Inr (take (nat dest) mem @ take n (drop (nat src) mem) @ drop (nat dest + n) mem)
      else Inl MemFault)"

definition memcpy :: "byte list \<Rightarrow> int \<Rightarrow> byte list \<Rightarrow> nat \<Rightarrow> error + byte list" where
  "memcpy mem dest src n =
     (if in_buf mem dest n \<and> n \<le> length src
      then Inr (take (nat dest) mem @ take n src @ drop (nat dest + n) mem)
      else Inl MemFault)"

definition realloc :: "byte list \<Rightarrow> nat \<Rightarrow> byte list" where
  "realloc mem n = take n mem @ replicate (n - length mem) 0"

text \<open>What a caller reads through an element pointer: \<open>sz\<close> bytes from that offset.\<close>

definition read_at :: "byte list \<Rightarrow> int \<Rightarrow> nat \<Rightarrow> byte list" where
  "read_at mem p sz = take sz (drop (nat p) mem)"

definition deref :: "'w cvector \<Rightarrow> int \<Rightarrow> byte list" where
  "deref cv p = read_at (data cv) p (elemsz cv)"

text \<open>
  \<open>a - b\<close> in \<open>size_t\<close>, for \<open>a\<close> and \<open>b\<close> below \<open>2\<^sup>6\<^sup>4\<close>: the difference, wrapped around
  when \<open>b\<close> is the larger.
\<close>

definition size_t_sub :: "nat \<Rightarrow> nat \<Rightarrow> nat" where
  "size_t_sub a b = (if b \<le> a then a - b else a + 2 ^ 64 - b)"

subsection \<open>Operations\<close>

definition get_nth :: "'w cvector \<Rightarrow> int \<Rightarrow> int" where
  "get_nth cv n = n * int (elemsz cv)"

definition cvec_create :: "nat \<Rightarrow> nat \<Rightarrow> 'w cleanup \<Rightarrow> error + 'w cvector" where
  "cvec_create elemsize capacity_hint fn =
     (if elemsize = 0 then Inl AssertFail
      else let cap = (if capacity_hint = 0 then DEFAULT_CAPACITY_cvec else capacity_hint)
           in Inr \<lparr>data = replicate (cap * elemsize) 0, size_cv = 0, capacity = cap,
                    elemsz = elemsize, clean_cv = fn\<rparr>)"

text \<open>
  The loop of \<open>cvec_dispose\<close> counts in an \<open>int\<close>, converted to \<open>size_t\<close> for the comparison
  with \<open>cv->size\<close>; to increment it at \<open>INT_MAX\<close> is an overflow.
\<close>

function cvec_dispose_loop ::
  "'w cvector \<Rightarrow> (byte list \<Rightarrow> 'w \<Rightarrow> 'w) \<Rightarrow> int \<Rightarrow> 'w \<Rightarrow> error + 'w" where
  "cvec_dispose_loop cv f i w =
     (if size_t_of_int i < size_cv cv
      then (if INT_MAX \<le> i then Inl IntOverflow
            else cvec_dispose_loop cv f (i + 1) (f (deref cv (get_nth cv i)) w))
      else Inr w)"
  by pat_completeness auto
termination
  by (relation "measure (\<lambda>(cv, f, i, w). nat (INT_MAX - i))") auto

definition cvec_dispose :: "'w cvector \<Rightarrow> 'w \<Rightarrow> error + 'w" where
  "cvec_dispose cv w =
     (case clean_cv cv of None \<Rightarrow> Inr w | Some f \<Rightarrow> cvec_dispose_loop cv f 0 w)"

text \<open>\<open>cvec_count\<close> returns the \<open>size_t\<close> field \<open>size\<close> as an \<open>int\<close>.\<close>

definition cvec_count :: "'w cvector \<Rightarrow> int" where
  "cvec_count cv = int_of_size_t (size_cv cv)"

text \<open>
  The bounds check of \<open>cvec_nth\<close> compares in \<open>size_t\<close>: \<open>index\<close> is converted (it is not
  negative there) and \<open>cv->size - 1\<close> is an unsigned subtraction.
\<close>

definition cvec_nth :: "'w cvector \<Rightarrow> int \<Rightarrow> error + int" where
  "cvec_nth cv index =
     (if index \<ge> 0 \<and> nat index \<le> size_t_sub (size_cv cv) 1 then Inr (get_nth cv index)
      else Inl AssertFail)"

definition cvec_expand :: "'w cvector \<Rightarrow> 'w cvector" where
  "cvec_expand cv =
     cv\<lparr>capacity := capacity cv * 2,
        data := realloc (data cv) (elemsz cv * (capacity cv * 2))\<rparr>"

text \<open>
  \<open>cvec_insert\<close> compares \<open>index\<close> with \<open>cv->size\<close> in \<open>size_t\<close> (the index is not negative
  there) and computes \<open>index + 1\<close> in \<open>int\<close>.
\<close>

definition cvec_insert :: "'w cvector \<Rightarrow> byte list \<Rightarrow> int \<Rightarrow> error + 'w cvector" where
  "cvec_insert cv addr index =
     (if index \<ge> 0 \<and> nat index \<le> size_cv cv
      then let cv1 = (if size_cv cv = capacity cv then cvec_expand cv else cv) in
           if INT_MAX \<le> index then Inl IntOverflow
           else case memmove (data cv1) (get_nth cv1 (index + 1)) (get_nth cv1 index)
                       (elemsz cv1 * (size_cv cv1 - nat index)) of
                  Inl e \<Rightarrow> Inl e
                | Inr moved \<Rightarrow>
                    (case memcpy moved (get_nth cv1 index) addr (elemsz cv1) of
                       Inl e \<Rightarrow> Inl e
                     | Inr stored \<Rightarrow>
                         Inr (cv1\<lparr>data := stored, size_cv := size_cv cv1 + 1\<rparr>))
      else Inl AssertFail)"

definition cvec_append :: "'w cvector \<Rightarrow> byte list \<Rightarrow> error + 'w cvector" where
  "cvec_append cv addr = cvec_insert cv addr (cvec_count cv)"

text \<open>
  \<open>bsearch\<close> and \<open>lfind\<close> of the C library, as glibc has them: \<open>bsearch\<close> probes the middle
  of the remaining range and returns the first probe that compares equal; \<open>lfind\<close> scans
  from the base. The comparator gets the key and a pointer to an element; the model hands
  it the element's bytes.
\<close>

type_synonym 'k compare_fn = "'k \<Rightarrow> byte list \<Rightarrow> int"

function bsearch_loop ::
  "'k \<Rightarrow> byte list \<Rightarrow> int \<Rightarrow> nat \<Rightarrow> 'k compare_fn \<Rightarrow> nat \<Rightarrow> nat \<Rightarrow> int option" where
  "bsearch_loop key mem base sz compar l u =
     (if l < u
      then (let idx = (l + u) div 2;
                p = base + int (idx * sz);
                comparison = compar key (read_at mem p sz)
            in if comparison < 0 then bsearch_loop key mem base sz compar l idx
               else if comparison > 0 then bsearch_loop key mem base sz compar (idx + 1) u
               else Some p)
      else None)"
  by pat_completeness auto
termination
  by (relation "measure (\<lambda>(key, mem, base, sz, compar, l, u). u - l)") auto

definition bsearch :: "'k \<Rightarrow> byte list \<Rightarrow> int \<Rightarrow> nat \<Rightarrow> nat \<Rightarrow> 'k compare_fn \<Rightarrow> int option" where
  "bsearch key mem base nmemb sz compar = bsearch_loop key mem base sz compar 0 nmemb"

fun lfind_loop :: "'k \<Rightarrow> byte list \<Rightarrow> int \<Rightarrow> nat \<Rightarrow> nat \<Rightarrow> 'k compare_fn \<Rightarrow> int option" where
  "lfind_loop key mem result 0 sz compar = None"
| "lfind_loop key mem result (Suc cnt) sz compar =
     (if compar key (read_at mem result sz) \<noteq> 0
      then lfind_loop key mem (result + int sz) cnt sz compar
      else Some result)"

definition lfind :: "'k \<Rightarrow> byte list \<Rightarrow> int \<Rightarrow> nat \<Rightarrow> nat \<Rightarrow> 'k compare_fn \<Rightarrow> int option" where
  "lfind key mem base nmemb sz compar = lfind_loop key mem base nmemb sz compar"

text \<open>
  \<open>cvec_search\<close>: \<open>cvec_count(cv) - start\<close> is an \<open>int\<close> subtraction, converted to \<open>size_t\<close>
  for the number of elements to search. The index returned is the pointer difference
  (not negative: the element found is not below the data) divided by the element size in
  \<open>unsigned long\<close>, converted to the \<open>int\<close> result.
\<close>

definition cvec_search :: "'w cvector \<Rightarrow> 'k \<Rightarrow> 'k compare_fn \<Rightarrow> int \<Rightarrow> bool \<Rightarrow> error + int" where
  "cvec_search cv key cmp start sorted_flag =
     (if start \<ge> 0 \<and> nat start \<le> size_cv cv
      then if cvec_count cv - start < INT_MIN then Inl IntOverflow
           else let num_searchelems = size_t_of_int (cvec_count cv - start) in
           if sorted_flag
           then (case bsearch key (data cv) (get_nth cv start) num_searchelems (elemsz cv) cmp of
                   None \<Rightarrow> Inr (- 1)
                 | Some ptr1 \<Rightarrow>
                     if elemsz cv = 0 then Inl DivByZero
                     else Inr (int_of_size_t (nat ptr1 div elemsz cv)))
           else (case lfind key (data cv) (get_nth cv start) num_searchelems (elemsz cv) cmp of
                   None \<Rightarrow> Inr (- 1)
                 | Some ptr2 \<Rightarrow>
                     if elemsz cv = 0 then Inl DivByZero
                     else Inr (int_of_size_t (nat ptr2 div elemsz cv)))
      else Inl AssertFail)"

definition cvec_first :: "'w cvector \<Rightarrow> int option" where
  "cvec_first cv = (if size_cv cv = 0 then None else Some 0)"

text \<open>
  \<open>cvec_next\<close> computes \<open>cvec_count(cv) - 1\<close> in \<open>int\<close> and multiplies it, converted, by the
  element size for the offset of the last slot. Pointers are offsets from the start of
  the data, so the offset \<open>- elemsz\<close> stands for the address that \<open>count = 0\<close> yields.
\<close>

definition cvec_next :: "'w cvector \<Rightarrow> int \<Rightarrow> error + int option" where
  "cvec_next cv prev =
     (if cvec_count cv - 1 < INT_MIN then Inl IntOverflow
      else if prev = int (elemsz cv) * (cvec_count cv - 1) then Inr None
      else Inr (Some (prev + int (elemsz cv))))"

subsection \<open>Callers: a run of inserts, a full traversal\<close>

datatype vop = Append "byte list" | InsertAt "byte list" int

fun cvec_apply :: "'w cvector \<Rightarrow> vop \<Rightarrow> error + 'w cvector" where
  "cvec_apply cv (Append addr) = cvec_append cv addr"
| "cvec_apply cv (InsertAt addr index) = cvec_insert cv addr index"

fun cvec_run :: "'w cvector \<Rightarrow> vop list \<Rightarrow> error + 'w cvector" where
  "cvec_run cv [] = Inr cv"
| "cvec_run cv (x # ops) =
     (case cvec_apply cv x of Inl e \<Rightarrow> Inl e | Inr cv' \<Rightarrow> cvec_run cv' ops)"

text \<open>
  The caller's loop \<open>for (p = cvec_first(cv); p != NULL; p = cvec_next(cv, p))\<close>,
  collecting the elements it reads. It runs on fuel, as the table's does.
\<close>

fun cvec_walk ::
  "nat \<Rightarrow> 'w cvector \<Rightarrow> error + int option \<Rightarrow> (error + byte list list) option" where
  "cvec_walk fuel cv (Inl e) = Some (Inl e)"
| "cvec_walk fuel cv (Inr None) = Some (Inr [])"
| "cvec_walk 0 cv (Inr (Some p)) = None"
| "cvec_walk (Suc fuel) cv (Inr (Some p)) =
     (case cvec_walk fuel cv (cvec_next cv p) of
        None \<Rightarrow> None
      | Some (Inl e) \<Rightarrow> Some (Inl e)
      | Some (Inr es) \<Rightarrow> Some (Inr (deref cv p # es)))"

definition cvec_traverse :: "nat \<Rightarrow> 'w cvector \<Rightarrow> (error + byte list list) option" where
  "cvec_traverse fuel cv = cvec_walk fuel cv (Inr (cvec_first cv))"

section \<open>Contents and well-formedness\<close>

subsection \<open>The hash table\<close>

text \<open>The entries of a table, bucket by bucket, each chain from its head.\<close>

definition entries :: "'w cmap \<Rightarrow> blob list" where
  "entries cm = concat (buckets cm)"

text \<open>
  A well formed table: the bucket array has \<open>nbuckets\<close> slots, every blob sits in the
  bucket its key hashes to, no key is stored twice, and \<open>count\<close> counts the blobs.
\<close>

definition cmap_inv :: "'w cmap \<Rightarrow> bool" where
  "cmap_inv cm =
     (length (buckets cm) = nbuckets cm \<and> 0 < nbuckets cm \<and>
      list_all (\<lambda>i. list_all (\<lambda>b. hash (get_key b) (int_of_size_t (nbuckets cm)) = Inr (int i))
                       (buckets cm ! i))
        [0..<nbuckets cm] \<and>
      distinct (map get_key (entries cm)) \<and>
      count cm = int (length (entries cm)))"

text \<open>
  The bucket of a key in a table of \<open>n\<close> buckets, as a number: what \<open>hash\<close> returns when
  \<open>n\<close> fits an \<open>int\<close> and the key is not longer than \<open>INT_MAX\<close>.
\<close>

definition bucket_of :: "string \<Rightarrow> nat \<Rightarrow> nat" where
  "bucket_of s n = unat (hash_loop s 0) mod n"

subsection \<open>The dynamic array\<close>

text \<open>The live elements: what \<open>get_nth\<close> points at for each index below \<open>size\<close>.\<close>

definition elems :: "'w cvector \<Rightarrow> byte list list" where
  "elems cv = map (\<lambda>i. deref cv (get_nth cv (int i))) [0..<size_cv cv]"

text \<open>The first \<open>n\<close> slots of \<open>e\<close> bytes of a buffer.\<close>

definition slots :: "nat \<Rightarrow> nat \<Rightarrow> byte list \<Rightarrow> byte list list" where
  "slots e n mem = map (\<lambda>i. take e (drop (i * e) mem)) [0..<n]"

text \<open>
  A well formed array: the element size is not zero, the buffer has \<open>capacity\<close> slots and
  the live elements fit.
\<close>

definition cvec_inv :: "'w cvector \<Rightarrow> bool" where
  "cvec_inv cv =
     (0 < elemsz cv \<and> 0 < capacity cv \<and> size_cv cv \<le> capacity cv \<and>
      length (data cv) = capacity cv * elemsz cv)"

text \<open>
  What \<open>bsearch\<close> requires of the range it searches (C standard, 7.22.5): the elements
  the key compares greater than come first, then those it compares equal to, then those
  it compares less than. So the sign of \<open>cmp key\<close> never rises along the range.
\<close>

definition key_sorted :: "'k compare_fn \<Rightarrow> 'k \<Rightarrow> byte list list \<Rightarrow> bool" where
  "key_sorted cmp key xs = sorted_wrt (\<lambda>a b. sgn (cmp key b) \<le> sgn (cmp key a)) xs"

text \<open>
  A caller's comparator for elements of one unsigned byte, the key being such a byte too:
  the difference of the two bytes.
\<close>

definition cmp_u8 :: "byte list compare_fn" where
  "cmp_u8 key elem =
     (case (key, elem) of (a # _, b # _) \<Rightarrow> int (unat a) - int (unat b) | _ \<Rightarrow> 0)"

text \<open>
  The logical content the spec describes: a list of elements, \<open>Append\<close> adds at the end,
  \<open>InsertAt\<close> puts the element at its index and moves the later ones one place up. Each
  stored element is the first \<open>esz\<close> bytes at the caller's address.
\<close>

fun spec_apply :: "nat \<Rightarrow> byte list list \<Rightarrow> vop \<Rightarrow> byte list list" where
  "spec_apply esz xs (Append addr) = xs @ [take esz addr]"
| "spec_apply esz xs (InsertAt addr index) =
     take (nat index) xs @ take esz addr # drop (nat index) xs"

definition spec_run :: "nat \<Rightarrow> vop list \<Rightarrow> byte list list" where
  "spec_run esz ops = foldl (spec_apply esz) [] ops"

text \<open>
  The calls a sequence may make: each index within \<open>0 \<le> index \<le> count\<close> at its call,
  each address pointing at \<open>esz\<close> bytes or more.
\<close>

fun ops_ok :: "nat \<Rightarrow> nat \<Rightarrow> vop list \<Rightarrow> bool" where
  "ops_ok esz n [] = True"
| "ops_ok esz n (Append addr # ops) = (esz \<le> length addr \<and> ops_ok esz (Suc n) ops)"
| "ops_ok esz n (InsertAt addr index # ops) =
     (0 \<le> index \<and> index \<le> int n \<and> esz \<le> length addr \<and> ops_ok esz (Suc n) ops)"

section \<open>Conversions within their range\<close>

text \<open>
  A \<open>size_t\<close> of at most \<open>INT_MAX\<close> keeps its value as an \<open>int\<close>, and an \<open>int\<close> from 0 to
  \<open>INT_MAX\<close> keeps its value as a \<open>size_t\<close>.
\<close>

lemma int_of_size_t_id: "int n \<le> INT_MAX \<Longrightarrow> int_of_size_t n = int n"
proof -
  assume a: "int n \<le> INT_MAX"
  have "(word_of_nat n :: 32 word) = word_of_int (int n)" by simp
  then have "int_of_size_t n = signed_take_bit 31 (int n)"
    unfolding int_of_size_t_def by (simp only: sint_sbintrunc') simp
  also from a have "\<dots> = int n"
    by (intro signed_take_bit_int_eq_self) (simp_all add: INT_MAX_def)
  finally show ?thesis .
qed

lemma size_t_of_int_id: "0 \<le> i \<Longrightarrow> i \<le> INT_MAX \<Longrightarrow> size_t_of_int i = nat i"
proof -
  assume a: "0 \<le> i" "i \<le> INT_MAX"
  have "uint (word_of_int i :: 64 word) = take_bit 64 i" by (simp add: uint_word_of_int_eq)
  also from a have "\<dots> = i" by (intro take_bit_int_eq_self) (simp_all add: INT_MAX_def)
  finally show ?thesis unfolding size_t_of_int_def by (simp add: unat_eq_nat_uint)
qed

lemma size_t_of_int_int: "int n \<le> INT_MAX \<Longrightarrow> size_t_of_int (int n) = n"
  using size_t_of_int_id [of "int n"] by simp

section \<open>Properties of the hash table\<close>

declare first_loop.simps [simp del] next_loop.simps [simp del] dispose_loop.simps [simp del]

subsection \<open>Strings, hashing, blobs\<close>

lemma strcmp_eq_iff: "strcmp s1 s2 = 0 \<longleftrightarrow> s1 = s2"
  by (induction s1 s2 rule: strcmp.induct) auto

lemma strncmp_eq_iff: "strncmp s1 s2 n = 0 \<longleftrightarrow> take n s1 = take n s2"
  by (induction s1 s2 n rule: strncmp.induct) auto

lemma strncmp_strlen: "strncmp s1 s2 (strlen s2) = 0 \<longleftrightarrow> take (length s2) s1 = s2"
  by (simp add: strncmp_eq_iff strlen_def)

lemma bucket_of_less: "0 < n \<Longrightarrow> bucket_of s n < n"
  by (simp add: bucket_of_def)

lemma hash_in_range:
  assumes "0 < n" "int n \<le> INT_MAX" "int (length s) \<le> INT_MAX"
  shows "hash s (int_of_size_t n) = Inr (int (bucket_of s n))"
proof -
  have "bucket_of s n < n" using assms(1) by (rule bucket_of_less)
  with assms(2) have "int (bucket_of s n) \<le> INT_MAX" by simp
  then show ?thesis using assms
    by (simp add: hash_def int_of_size_t_id size_t_of_int_int bucket_of_def)
qed

lemma hash_Inr_iff:
  assumes "0 < n" "int n \<le> INT_MAX"
  shows "hash s (int_of_size_t n) = Inr b \<longleftrightarrow>
         int (length s) \<le> INT_MAX \<and> b = int (bucket_of s n)"
proof
  assume h: "hash s (int_of_size_t n) = Inr b"
  then have l: "int (length s) \<le> INT_MAX" by (simp add: hash_def split: if_splits)
  from hash_in_range [OF assms this] h show "int (length s) \<le> INT_MAX \<and> b = int (bucket_of s n)"
    using l by simp
next
  assume "int (length s) \<le> INT_MAX \<and> b = int (bucket_of s n)"
  with hash_in_range [OF assms] show "hash s (int_of_size_t n) = Inr b" by simp
qed

lemma hash_long: "INT_MAX < int (length s) \<Longrightarrow> hash s nb = Inl IntOverflow"
  by (simp add: hash_def)

lemma get_key_set_value [simp]: "get_key (set_value cm b v) = get_key b"
  by (simp add: set_value_def)

lemma get_value_set_value [simp]: "get_value (set_value cm b v) = take (valsz cm) v"
  by (simp add: set_value_def)

lemma get_key_create_blob [simp]: "get_key (create_blob cm k v) = k"
  by (simp add: create_blob_def)

lemma get_value_create_blob [simp]: "get_value (create_blob cm k v) = take (valsz cm) v"
  by (simp add: create_blob_def)

lemma put_loop_None: "put_loop cm key addr c w = None \<longleftrightarrow> key \<notin> get_key ` set c"
  by (induction c) (auto simp: strcmp_eq_iff split: option.splits)

lemma put_loop_keys:
  "put_loop cm key addr c w = Some (c', w') \<Longrightarrow> map get_key c' = map get_key c"
  by (induction c arbitrary: c' w') (auto simp: strcmp_eq_iff split: if_splits option.splits)

lemma concat_list_update:
  "i < length xss \<Longrightarrow>
   concat (xss[i := ys]) = concat (take i xss) @ ys @ concat (drop (Suc i) xss)"
  by (simp add: upd_conv_take_nth_drop)

lemma concat_split_nth:
  "i < length xss \<Longrightarrow>
   concat xss = concat (take i xss) @ xss ! i @ concat (drop (Suc i) xss)"
  by (metis concat_list_update list_update_id)

subsection \<open>The invariant\<close>

text \<open>
  With a bucket count that fits an \<open>int\<close>, the invariant in terms of bucket numbers.
\<close>

lemma cmap_inv_iff:
  assumes "int (nbuckets cm) \<le> INT_MAX"
  shows "cmap_inv cm \<longleftrightarrow>
     length (buckets cm) = nbuckets cm \<and> 0 < nbuckets cm \<and>
     (\<forall>i<nbuckets cm. \<forall>b\<in>set (buckets cm ! i).
        int (length (get_key b)) \<le> INT_MAX \<and> bucket_of (get_key b) (nbuckets cm) = i) \<and>
     distinct (map get_key (entries cm)) \<and>
     count cm = int (length (entries cm))"
proof (cases "0 < nbuckets cm")
  case True
  show ?thesis
    unfolding cmap_inv_def list_all_iff using True
    by (auto simp: hash_Inr_iff [OF True assms])
next
  case False
  then show ?thesis by (simp add: cmap_inv_def)
qed

lemma cmap_inv_create:
  "cmap_create valuesz hint fn = Inr cm \<Longrightarrow> cmap_inv cm"
  by (auto simp: cmap_create_def cmap_inv_def entries_def Let_def DEFAULT_CAPACITY_cmap_def
      list_all_iff split: if_splits)

lemma cmap_create_nbuckets:
  "cmap_create valuesz hint fn = Inr cm \<Longrightarrow> int hint \<le> INT_MAX \<Longrightarrow>
   int (nbuckets cm) \<le> INT_MAX"
  by (auto simp: cmap_create_def Let_def DEFAULT_CAPACITY_cmap_def INT_MAX_def
      split: if_splits)

lemma key_in_bucket:
  assumes "cmap_inv cm" and "int (nbuckets cm) \<le> INT_MAX" and "b \<in> set (entries cm)"
  shows "b \<in> set (buckets cm ! bucket_of (get_key b) (nbuckets cm))"
proof -
  from assms(3) obtain c where c: "c \<in> set (buckets cm)" "b \<in> set c"
    by (auto simp: entries_def)
  then obtain i where i: "i < length (buckets cm)" "buckets cm ! i = c"
    by (auto simp: in_set_conv_nth)
  with assms(1) c have "bucket_of (get_key b) (nbuckets cm) = i"
    by (auto simp: cmap_inv_iff [OF assms(2)])
  with i c show ?thesis by simp
qed

lemma key_not_stored:
  assumes "cmap_inv cm" and "int (nbuckets cm) \<le> INT_MAX"
    and "key \<notin> get_key ` set (buckets cm ! bucket_of key (nbuckets cm))"
  shows "key \<notin> get_key ` set (entries cm)"
  using assms key_in_bucket by fastforce

subsection \<open>Put\<close>

text \<open>
  On a well formed table whose bucket count fits an \<open>int\<close>, \<open>cmap_put\<close> returns for every
  key of at most \<open>INT_MAX\<close> characters, unless the key is new and the count is \<open>INT_MAX\<close>.
  The two ways it returns:
\<close>

lemma cmap_put_None:
  assumes "cmap_inv cm" "int (nbuckets cm) \<le> INT_MAX" "int (length key) \<le> INT_MAX"
    and "put_loop cm key addr (buckets cm ! bucket_of key (nbuckets cm)) w = None"
    and "count cm < INT_MAX"
  shows "cmap_put cm key addr w =
           Inr (cm\<lparr>buckets := (buckets cm)[bucket_of key (nbuckets cm) :=
                    create_blob cm key addr # buckets cm ! bucket_of key (nbuckets cm)],
                count := count cm + 1\<rparr>, w)"
proof -
  from assms(1) have l: "length (buckets cm) = nbuckets cm" "0 < nbuckets cm"
    by (simp_all add: cmap_inv_def)
  then have "bucket_of key (nbuckets cm) < length (buckets cm)" by (simp add: bucket_of_less)
  with assms l show ?thesis
    by (simp add: cmap_put_def hash_in_range bucket_at_def Let_def)
qed

lemma cmap_put_Some:
  assumes "cmap_inv cm" "int (nbuckets cm) \<le> INT_MAX" "int (length key) \<le> INT_MAX"
    and "put_loop cm key addr (buckets cm ! bucket_of key (nbuckets cm)) w = Some (c', w')"
  shows "cmap_put cm key addr w =
           Inr (cm\<lparr>buckets := (buckets cm)[bucket_of key (nbuckets cm) := c']\<rparr>, w')"
proof -
  from assms(1) have l: "length (buckets cm) = nbuckets cm" "0 < nbuckets cm"
    by (simp_all add: cmap_inv_def)
  then have "bucket_of key (nbuckets cm) < length (buckets cm)" by (simp add: bucket_of_less)
  with assms l show ?thesis
    by (simp add: cmap_put_def hash_in_range bucket_at_def Let_def)
qed

lemma cmap_put_Inr:
  assumes "cmap_put cm key addr w = Inr (cm', w')"
  shows "int (length key) \<le> INT_MAX"
    and "put_loop cm key addr (buckets cm ! bucket_of key (nbuckets cm)) w = None \<Longrightarrow>
         cmap_inv cm \<Longrightarrow> int (nbuckets cm) \<le> INT_MAX \<Longrightarrow> count cm < INT_MAX"
proof -
  from assms show k: "int (length key) \<le> INT_MAX"
    by (auto simp: cmap_put_def hash_def split: if_splits sum.splits)
  assume n: "put_loop cm key addr (buckets cm ! bucket_of key (nbuckets cm)) w = None"
    and inv: "cmap_inv cm" and nb: "int (nbuckets cm) \<le> INT_MAX"
  from inv have l: "length (buckets cm) = nbuckets cm" "0 < nbuckets cm"
    by (simp_all add: cmap_inv_def)
  then have "bucket_of key (nbuckets cm) < length (buckets cm)" by (simp add: bucket_of_less)
  with assms n l nb k show "count cm < INT_MAX"
    by (auto simp: cmap_put_def hash_in_range bucket_at_def Let_def split: if_splits)
qed

lemma cmap_put_new:
  assumes inv: "cmap_inv cm" and nb: "int (nbuckets cm) \<le> INT_MAX"
    and klen: "int (length key) \<le> INT_MAX"
    and none: "put_loop cm key addr (buckets cm ! bucket_of key (nbuckets cm)) w = None"
    and cm': "cm' = cm\<lparr>buckets := (buckets cm)[bucket_of key (nbuckets cm) :=
                    create_blob cm key addr # buckets cm ! bucket_of key (nbuckets cm)],
                count := count cm + 1\<rparr>"
  shows "cmap_inv cm'"
    and "map get_key (entries cm') =
         map get_key (concat (take (bucket_of key (nbuckets cm)) (buckets cm))) @
         key # map get_key (concat (drop (bucket_of key (nbuckets cm)) (buckets cm)))"
proof -
  let ?bn = "bucket_of key (nbuckets cm)"
  note iff = cmap_inv_iff [OF nb]
  from inv have len: "length (buckets cm) = nbuckets cm" and pos: "0 < nbuckets cm"
    by (simp_all add: iff)
  then have bn: "?bn < length (buckets cm)" by (simp add: bucket_of_less)
  from none have fresh: "key \<notin> get_key ` set (entries cm)"
    using key_not_stored [OF inv nb] by (simp add: put_loop_None)
  have old: "entries cm = concat (take ?bn (buckets cm)) @ buckets cm ! ?bn @
               concat (drop (Suc ?bn) (buckets cm))"
    unfolding entries_def by (rule concat_split_nth [OF bn])
  have new: "entries cm' = concat (take ?bn (buckets cm)) @
               (create_blob cm key addr # buckets cm ! ?bn) @
               concat (drop (Suc ?bn) (buckets cm))"
    by (simp add: cm' entries_def concat_list_update [OF bn])
  have dropbn: "concat (drop ?bn (buckets cm)) =
                  buckets cm ! ?bn @ concat (drop (Suc ?bn) (buckets cm))"
    using bn by (simp flip: Cons_nth_drop_Suc)
  show keys: "map get_key (entries cm') =
         map get_key (concat (take ?bn (buckets cm))) @
         key # map get_key (concat (drop ?bn (buckets cm)))"
    by (simp add: new dropbn)
  from inv have d: "distinct (map get_key (entries cm))" by (simp add: iff)
  have dist: "distinct (map get_key (entries cm'))"
    using d fresh unfolding keys by (auto simp: old dropbn)
  have "length (entries cm') = Suc (length (entries cm))"
    by (simp add: new old)
  moreover from inv have "count cm = int (length (entries cm))"
    by (simp add: iff)
  ultimately have cnt: "count cm' = int (length (entries cm'))"
    by (simp add: cm')
  have nb': "nbuckets cm' = nbuckets cm" by (simp add: cm')
  have hashes: "int (length (get_key b)) \<le> INT_MAX \<and> bucket_of (get_key b) (nbuckets cm') = i"
    if "i < nbuckets cm'" "b \<in> set (buckets cm' ! i)" for i b
  proof (cases "i = ?bn")
    case True
    with that bn have "b = create_blob cm key addr \<or> b \<in> set (buckets cm ! ?bn)"
      by (simp add: cm')
    with inv True len bn klen show ?thesis by (auto simp: iff cm')
  next
    case False
    with that have "b \<in> set (buckets cm ! i)" "i < nbuckets cm" by (simp_all add: cm')
    with inv show ?thesis by (auto simp: iff cm')
  qed
  from nb have nb2: "int (nbuckets cm') \<le> INT_MAX" by (simp add: nb')
  show "cmap_inv cm'"
    unfolding cmap_inv_iff [OF nb2] using hashes dist cnt len pos by (simp add: cm')
qed

lemma cmap_put_old:
  assumes inv: "cmap_inv cm" and nb: "int (nbuckets cm) \<le> INT_MAX"
    and some: "put_loop cm key addr (buckets cm ! bucket_of key (nbuckets cm)) w = Some (c', w')"
    and cm': "cm' = cm\<lparr>buckets := (buckets cm)[bucket_of key (nbuckets cm) := c']\<rparr>"
  shows "cmap_inv cm'"
    and "map get_key (entries cm') = map get_key (entries cm)"
proof -
  let ?bn = "bucket_of key (nbuckets cm)"
  note iff = cmap_inv_iff [OF nb]
  from inv have len: "length (buckets cm) = nbuckets cm" and pos: "0 < nbuckets cm"
    by (simp_all add: iff)
  then have bn: "?bn < length (buckets cm)" by (simp add: bucket_of_less)
  have ks: "map get_key c' = map get_key (buckets cm ! ?bn)"
    by (rule put_loop_keys [OF some])
  have "map get_key (entries cm') =
        map get_key (concat (take ?bn (buckets cm))) @ map get_key c' @
        map get_key (concat (drop (Suc ?bn) (buckets cm)))"
    by (simp add: cm' entries_def concat_list_update [OF bn])
  also have "\<dots> = map get_key (concat (take ?bn (buckets cm)) @ buckets cm ! ?bn @
               concat (drop (Suc ?bn) (buckets cm)))"
    by (simp add: ks)
  also have "\<dots> = map get_key (entries cm)"
    unfolding entries_def by (simp only: concat_split_nth [OF bn, symmetric])
  finally show keys: "map get_key (entries cm') = map get_key (entries cm)" .
  have "length (entries cm') = length (entries cm)"
    using keys by (metis length_map)
  moreover from inv have "count cm = int (length (entries cm))"
    by (simp add: iff)
  ultimately have cnt: "count cm' = int (length (entries cm'))"
    by (simp add: cm')
  have nb': "nbuckets cm' = nbuckets cm" by (simp add: cm')
  have hashes: "int (length (get_key b)) \<le> INT_MAX \<and> bucket_of (get_key b) (nbuckets cm') = i"
    if "i < nbuckets cm'" "b \<in> set (buckets cm' ! i)" for i b
  proof (cases "i = ?bn")
    case True
    with that bn have "get_key b \<in> set (map get_key c')" by (simp add: cm')
    then obtain b0 where b0: "b0 \<in> set (buckets cm ! ?bn)" "get_key b0 = get_key b"
      unfolding ks by auto
    from inv bn len b0(1)
    have "int (length (get_key b0)) \<le> INT_MAX \<and> bucket_of (get_key b0) (nbuckets cm) = ?bn"
      by (simp add: iff)
    with True b0(2) show ?thesis by (simp add: cm')
  next
    case False
    with that have "b \<in> set (buckets cm ! i)" "i < nbuckets cm" by (simp_all add: cm')
    with inv show ?thesis by (auto simp: iff cm')
  qed
  from nb have nb2: "int (nbuckets cm') \<le> INT_MAX" by (simp add: nb')
  from inv have d: "distinct (map get_key (entries cm))" by (simp add: iff)
  show "cmap_inv cm'"
    unfolding cmap_inv_iff [OF nb2] using hashes cnt len pos d keys by (simp add: cm')
qed

text \<open>Every return of \<open>cmap_put\<close> is one of the two.\<close>

lemma cmap_put_cases [consumes 3, case_names new old]:
  assumes inv: "cmap_inv cm" and nb: "int (nbuckets cm) \<le> INT_MAX"
    and p: "cmap_put cm key addr w = Inr (cm', w')"
  obtains (new) "put_loop cm key addr (buckets cm ! bucket_of key (nbuckets cm)) w = None"
      "cm' = cm\<lparr>buckets := (buckets cm)[bucket_of key (nbuckets cm) :=
                    create_blob cm key addr # buckets cm ! bucket_of key (nbuckets cm)],
                count := count cm + 1\<rparr>"
      "w' = w" "int (length key) \<le> INT_MAX"
  | (old) c' where
      "put_loop cm key addr (buckets cm ! bucket_of key (nbuckets cm)) w = Some (c', w')"
      "cm' = cm\<lparr>buckets := (buckets cm)[bucket_of key (nbuckets cm) := c']\<rparr>"
      "int (length key) \<le> INT_MAX"
proof -
  from p have klen: "int (length key) \<le> INT_MAX" by (rule cmap_put_Inr(1))
  show thesis
  proof (cases "put_loop cm key addr (buckets cm ! bucket_of key (nbuckets cm)) w")
    case None
    from cmap_put_Inr(2) [OF p None inv nb] have "count cm < INT_MAX" .
    from cmap_put_None [OF inv nb klen None this] p new [OF None _ _ klen]
    show thesis by simp
  next
    case (Some r)
    obtain c'' w'' where r: "r = (c'', w'')" by (cases r)
    from cmap_put_Some [OF inv nb klen Some [unfolded r]] p
    have "cm' = cm\<lparr>buckets := (buckets cm)[bucket_of key (nbuckets cm) := c'']\<rparr>" "w'' = w'"
      by simp_all
    with old [of c''] Some r klen show thesis by simp
  qed
qed

lemma cmap_put_fields:
  assumes "cmap_inv cm" "int (nbuckets cm) \<le> INT_MAX" "cmap_put cm key addr w = Inr (cm', w')"
  shows "nbuckets cm' = nbuckets cm" "valsz cm' = valsz cm" "clean cm' = clean cm"
    "length (buckets cm') = length (buckets cm)"
proof -
  from assms show "nbuckets cm' = nbuckets cm" by (cases rule: cmap_put_cases) simp_all
  from assms show "valsz cm' = valsz cm" by (cases rule: cmap_put_cases) simp_all
  from assms show "clean cm' = clean cm" by (cases rule: cmap_put_cases) simp_all
  from assms show "length (buckets cm') = length (buckets cm)"
    by (cases rule: cmap_put_cases) simp_all
qed

lemma cmap_inv_put:
  assumes "cmap_inv cm" "int (nbuckets cm) \<le> INT_MAX" "cmap_put cm key addr w = Inr (cm', w')"
  shows "cmap_inv cm'"
  using assms
proof (cases rule: cmap_put_cases)
  case new
  from cmap_put_new(1) [OF assms(1,2) new(4) new(1) new(2)] show ?thesis .
next
  case (old c')
  from cmap_put_old(1) [OF assms(1,2) old(1) old(2)] show ?thesis .
qed

lemma cmap_put_keys:
  assumes inv: "cmap_inv cm" and nb: "int (nbuckets cm) \<le> INT_MAX"
    and p: "cmap_put cm key addr w = Inr (cm', w')"
  shows "set (map get_key (entries cm')) = insert key (set (map get_key (entries cm)))"
  using assms
proof (cases rule: cmap_put_cases)
  case new
  let ?bn = "bucket_of key (nbuckets cm)"
  have "entries cm = concat (take ?bn (buckets cm)) @ concat (drop ?bn (buckets cm))"
    unfolding entries_def by (simp flip: concat_append)
  then have "set (map get_key (entries cm)) =
      set (map get_key (concat (take ?bn (buckets cm)))) \<union>
      set (map get_key (concat (drop ?bn (buckets cm))))"
    by (metis map_append set_append)
  then show ?thesis
    unfolding cmap_put_new(2) [OF inv nb new(4) new(1) new(2)] by auto
next
  case (old c')
  let ?bn = "bucket_of key (nbuckets cm)"
  from inv have "?bn < length (buckets cm)"
    by (simp add: cmap_inv_def bucket_of_less)
  then have "buckets cm ! ?bn \<in> set (buckets cm)"
    by (rule nth_mem)
  then have "set (buckets cm ! ?bn) \<subseteq> set (entries cm)"
    unfolding entries_def by auto
  moreover from old(1) have "key \<in> get_key ` set (buckets cm ! ?bn)"
    using put_loop_None [of cm key addr "buckets cm ! ?bn" w] by simp
  ultimately have "key \<in> set (map get_key (entries cm))" by auto
  then show ?thesis
    unfolding cmap_put_old(2) [OF inv nb old(1) old(2)] by auto
qed

lemma cmap_put_count:
  assumes inv: "cmap_inv cm" and nb: "int (nbuckets cm) \<le> INT_MAX"
    and p: "cmap_put cm key addr w = Inr (cm', w')"
  shows "count cm' \<le> count cm + 1"
  using assms by (cases rule: cmap_put_cases) simp_all

lemma cmap_put_returns:
  assumes inv: "cmap_inv cm" and nb: "int (nbuckets cm) \<le> INT_MAX"
    and klen: "int (length key) \<le> INT_MAX" and cnt: "count cm < INT_MAX"
  shows "\<exists>cm' w'. cmap_put cm key addr w = Inr (cm', w')"
proof (cases "put_loop cm key addr (buckets cm ! bucket_of key (nbuckets cm)) w")
  case None
  from cmap_put_None [OF inv nb klen None cnt] show ?thesis by blast
next
  case (Some r)
  obtain c' w' where r: "r = (c', w')" by (cases r)
  from cmap_put_Some [OF inv nb klen Some [unfolded r]] show ?thesis by blast
qed

subsection \<open>Runs of puts\<close>

lemma cmap_puts_inv:
  "cmap_inv cm \<Longrightarrow> int (nbuckets cm) \<le> INT_MAX \<Longrightarrow> cmap_puts cm ops w = Inr (cm', w') \<Longrightarrow>
   cmap_inv cm' \<and> nbuckets cm' = nbuckets cm \<and>
   set (map get_key (entries cm')) = set (map get_key (entries cm)) \<union> fst ` set ops"
proof (induction ops arbitrary: cm w)
  case Nil
  then show ?case by simp
next
  case (Cons x ops)
  obtain key addr where x: "x = (key, addr)" by (cases x)
  from Cons.prems(3) obtain cm1 w1 where p: "cmap_put cm key addr w = Inr (cm1, w1)"
    and r: "cmap_puts cm1 ops w1 = Inr (cm', w')"
    by (auto simp: x split: sum.splits)
  from Cons.prems(1,2) p have inv1: "cmap_inv cm1" by (rule cmap_inv_put)
  from cmap_put_fields(1) [OF Cons.prems(1,2) p] have nb1: "nbuckets cm1 = nbuckets cm" .
  with Cons.prems(2) have nb1': "int (nbuckets cm1) \<le> INT_MAX" by simp
  from Cons.prems(1,2) p
  have "set (map get_key (entries cm1)) = insert key (set (map get_key (entries cm)))"
    by (rule cmap_put_keys)
  with Cons.IH [OF inv1 nb1' r] nb1 show ?case by (simp add: x)
qed

text \<open>
  A run of puts returns when no key is longer than \<open>INT_MAX\<close> and the count cannot pass
  \<open>INT_MAX\<close>.
\<close>

lemma cmap_puts_returns:
  "cmap_inv cm \<Longrightarrow> int (nbuckets cm) \<le> INT_MAX \<Longrightarrow>
   list_all (\<lambda>(key, addr). int (length key) \<le> INT_MAX) ops \<Longrightarrow>
   count cm + int (length ops) \<le> INT_MAX \<Longrightarrow>
   \<exists>cm' w'. cmap_puts cm ops w = Inr (cm', w')"
proof (induction ops arbitrary: cm w)
  case Nil
  then show ?case by simp
next
  case (Cons x ops)
  obtain key addr where x: "x = (key, addr)" by (cases x)
  from Cons.prems(3) have klen: "int (length key) \<le> INT_MAX"
    and rest: "list_all (\<lambda>(key, addr). int (length key) \<le> INT_MAX) ops"
    by (simp_all add: x)
  from Cons.prems(4) have "count cm < INT_MAX" by simp
  from cmap_put_returns [OF Cons.prems(1,2) klen this]
  obtain cm1 w1 where p: "cmap_put cm key addr w = Inr (cm1, w1)" by blast
  from Cons.prems(1,2) p have inv1: "cmap_inv cm1" by (rule cmap_inv_put)
  from cmap_put_fields(1) [OF Cons.prems(1,2) p] Cons.prems(2)
  have nb1: "int (nbuckets cm1) \<le> INT_MAX" by simp
  from cmap_put_count [OF Cons.prems(1,2) p] Cons.prems(4)
  have "count cm1 + int (length ops) \<le> INT_MAX" by simp
  from Cons.IH [OF inv1 nb1 rest this, of w1] show ?case by (simp add: x p)
qed

subsection \<open>Iteration\<close>

lemma key_ptr_None [simp]: "key_ptr c = None \<longleftrightarrow> c = []"
  by (cases c) simp_all

lemma next_loop_first_loop: "next_loop cm i = first_loop cm i"
proof (induction cm i rule: first_loop.induct)
  case (1 cm i)
  show ?case
    by (subst next_loop.simps, subst first_loop.simps) (auto simp: 1 split: sum.splits)
qed

lemma bucket_at_nat:
  "i < length (buckets cm) \<Longrightarrow> bucket_at cm (int i) = Inr (buckets cm ! i)"
  by (simp add: bucket_at_def)

text \<open>
  The scan from bucket \<open>i\<close> of a table whose bucket count fits an \<open>int\<close>: it returns
  \<open>NULL\<close> when the buckets from \<open>i\<close> on are empty, and otherwise the head of the first
  bucket from \<open>i\<close> on that is not empty.
\<close>

lemma first_loop_scan:
  assumes len: "length (buckets cm) = nbuckets cm" and nb: "int (nbuckets cm) \<le> INT_MAX"
  shows "i \<le> nbuckets cm \<Longrightarrow>
    (first_loop cm (int i) = Inr None \<and> concat (drop i (buckets cm)) = []) \<or>
    (\<exists>j b nxt. first_loop cm (int i) = Inr (Some (b, nxt)) \<and> i \<le> j \<and> j < nbuckets cm \<and>
       buckets cm ! j = b # nxt \<and>
       concat (drop i (buckets cm)) = (b # nxt) @ concat (drop (Suc j) (buckets cm)))"
proof (induction n \<equiv> "nbuckets cm - i" arbitrary: i)
  case 0
  then have "i = nbuckets cm" by simp
  with nb have "size_t_of_int (int i) = nbuckets cm" by (simp add: size_t_of_int_int)
  then have "first_loop cm (int i) = Inr None" by (subst first_loop.simps) simp
  with \<open>i = nbuckets cm\<close> len show ?case by simp
next
  case (Suc n)
  then have lt: "i < nbuckets cm" by simp
  with nb have ii: "int i \<le> INT_MAX" "int i < INT_MAX" by simp_all
  then have s: "size_t_of_int (int i) = i" by (simp add: size_t_of_int_int)
  from lt len have ba: "bucket_at cm (int i) = Inr (buckets cm ! i)" by (simp add: bucket_at_nat)
  from lt len have d: "drop i (buckets cm) = buckets cm ! i # drop (Suc i) (buckets cm)"
    by (simp add: Cons_nth_drop_Suc)
  show ?case
  proof (cases "buckets cm ! i")
    case Nil
    have step: "first_loop cm (int i) = first_loop cm (int (Suc i))"
      using lt ii(2) by (subst first_loop.simps) (simp add: s ba Nil add.commute)
    from Suc.hyps(2) lt have "n = nbuckets cm - Suc i" "Suc i \<le> nbuckets cm" by simp_all
    from Suc.hyps(1) [OF this] show ?thesis
    proof
      assume "first_loop cm (int (Suc i)) = Inr None \<and> concat (drop (Suc i) (buckets cm)) = []"
      with step d Nil show ?thesis by simp
    next
      assume "\<exists>j b nxt. first_loop cm (int (Suc i)) = Inr (Some (b, nxt)) \<and> Suc i \<le> j \<and>
        j < nbuckets cm \<and> buckets cm ! j = b # nxt \<and>
        concat (drop (Suc i) (buckets cm)) = (b # nxt) @ concat (drop (Suc j) (buckets cm))"
      then obtain j b nxt where
        j: "first_loop cm (int (Suc i)) = Inr (Some (b, nxt))" "Suc i \<le> j" "j < nbuckets cm"
          "buckets cm ! j = b # nxt"
          "concat (drop (Suc i) (buckets cm)) = (b # nxt) @ concat (drop (Suc j) (buckets cm))"
        by blast
      from j(5) d Nil
      have "concat (drop i (buckets cm)) = (b # nxt) @ concat (drop (Suc j) (buckets cm))"
        by simp
      moreover from j(2) have "i \<le> j" by simp
      ultimately show ?thesis using j(1,3,4) step by (intro disjI2 exI [of _ j]) auto
    qed
  next
    case (Cons b nxt)
    have "first_loop cm (int i) = Inr (Some (b, nxt))"
      using lt by (subst first_loop.simps) (simp add: s ba Cons)
    with lt d Cons show ?thesis by (intro disjI2 exI [of _ i]) auto
  qed
qed

lemma cmap_next_in_chain [simp]:
  "cmap_next cm (b, b' # nxt') = Inr (Some (b', nxt'))"
  by (simp add: cmap_next_def)

lemma cmap_next_chain_end:
  assumes "0 < nbuckets cm" "int (nbuckets cm) \<le> INT_MAX" "int (length (get_key b)) \<le> INT_MAX"
  shows "cmap_next cm (b, []) =
           first_loop cm (int (Suc (bucket_of (get_key b) (nbuckets cm))))"
proof -
  from assms(1) have "bucket_of (get_key b) (nbuckets cm) < nbuckets cm"
    by (rule bucket_of_less)
  with assms(2) have "int (bucket_of (get_key b) (nbuckets cm)) < INT_MAX" by simp
  with assms show ?thesis
    by (simp add: cmap_next_def next_loop_first_loop hash_in_range add.commute)
qed

lemma cmap_walk_chain:
  assumes inv: "cmap_inv cm" and nb: "int (nbuckets cm) \<le> INT_MAX"
  shows "j < nbuckets cm \<Longrightarrow> buckets cm ! j = pre @ b # nxt \<Longrightarrow>
     length (b # nxt) + length (concat (drop (Suc j) (buckets cm))) \<le> fuel \<Longrightarrow>
     cmap_walk fuel cm (Inr (Some (b, nxt))) =
       Some (Inr (map get_key ((b # nxt) @ concat (drop (Suc j) (buckets cm)))))"
proof (induction fuel arbitrary: j pre b nxt)
  case 0
  then show ?case by simp
next
  case (Suc fuel)
  note iff = cmap_inv_iff [OF nb]
  from inv have len: "length (buckets cm) = nbuckets cm" and pos: "0 < nbuckets cm"
    by (simp_all add: iff)
  show ?case
  proof (cases nxt)
    case Nil
    from Suc.prems(1,2) inv
    have h: "bucket_of (get_key b) (nbuckets cm) = j" "int (length (get_key b)) \<le> INT_MAX"
      by (simp_all add: iff)
    from cmap_next_chain_end [OF pos nb h(2)] h(1)
    have nx: "cmap_next cm (b, []) = first_loop cm (int (Suc j))" by simp
    from Suc.prems(1) have "Suc j \<le> nbuckets cm" by simp
    from first_loop_scan [OF len nb this] show ?thesis
    proof
      assume "first_loop cm (int (Suc j)) = Inr None \<and> concat (drop (Suc j) (buckets cm)) = []"
      with Nil nx show ?thesis by (simp add: key_at_def)
    next
      assume "\<exists>j2 b2 nxt2. first_loop cm (int (Suc j)) = Inr (Some (b2, nxt2)) \<and> Suc j \<le> j2 \<and>
        j2 < nbuckets cm \<and> buckets cm ! j2 = b2 # nxt2 \<and>
        concat (drop (Suc j) (buckets cm)) = (b2 # nxt2) @ concat (drop (Suc j2) (buckets cm))"
      then obtain j2 b2 nxt2 where
        j2: "first_loop cm (int (Suc j)) = Inr (Some (b2, nxt2))" "Suc j \<le> j2"
          "j2 < nbuckets cm" "buckets cm ! j2 = b2 # nxt2"
          "concat (drop (Suc j) (buckets cm)) = (b2 # nxt2) @ concat (drop (Suc j2) (buckets cm))"
        by blast
      from Suc.prems(3) Nil j2(5)
      have "length (b2 # nxt2) + length (concat (drop (Suc j2) (buckets cm))) \<le> fuel"
        by simp
      with Suc.IH [of j2 "[]" b2 nxt2] j2
      have "cmap_walk fuel cm (Inr (Some (b2, nxt2))) =
              Some (Inr (map get_key (concat (drop (Suc j) (buckets cm)))))"
        by simp
      with j2(1) Nil nx show ?thesis by (simp add: key_at_def)
    qed
  next
    case (Cons b' nxt')
    with Suc.prems have "buckets cm ! j = (pre @ [b]) @ b' # nxt'"
      and "length (b' # nxt') + length (concat (drop (Suc j) (buckets cm))) \<le> fuel"
      by simp_all
    with Suc.IH [of j "pre @ [b]" b' nxt'] Suc.prems(1)
    have "cmap_walk fuel cm (Inr (Some (b', nxt'))) =
            Some (Inr (map get_key ((b' # nxt') @ concat (drop (Suc j) (buckets cm)))))"
      by blast
    with Cons show ?thesis by (simp add: key_at_def)
  qed
qed

lemma cmap_traverse_entries:
  assumes inv: "cmap_inv cm" and nb: "int (nbuckets cm) \<le> INT_MAX"
    and fuel: "length (entries cm) \<le> fuel"
  shows "cmap_traverse fuel cm = Some (Inr (map get_key (entries cm)))"
proof -
  from inv have len: "length (buckets cm) = nbuckets cm" by (simp add: cmap_inv_def)
  have "0 \<le> nbuckets cm" by simp
  from first_loop_scan [OF len nb this] show ?thesis
  proof
    assume "first_loop cm (int 0) = Inr None \<and> concat (drop 0 (buckets cm)) = []"
    then show ?thesis by (simp add: cmap_traverse_def cmap_first_def entries_def)
  next
    assume "\<exists>j b nxt. first_loop cm (int 0) = Inr (Some (b, nxt)) \<and> 0 \<le> j \<and>
        j < nbuckets cm \<and> buckets cm ! j = b # nxt \<and>
        concat (drop 0 (buckets cm)) = (b # nxt) @ concat (drop (Suc j) (buckets cm))"
    then obtain j b nxt where
      j: "first_loop cm (int 0) = Inr (Some (b, nxt))" "j < nbuckets cm"
        "buckets cm ! j = b # nxt"
        "concat (drop 0 (buckets cm)) = (b # nxt) @ concat (drop (Suc j) (buckets cm))"
      by blast
    from j(4) have e: "entries cm = (b # nxt) @ concat (drop (Suc j) (buckets cm))"
      by (simp add: entries_def)
    with fuel have "length (b # nxt) + length (concat (drop (Suc j) (buckets cm))) \<le> fuel"
      by simp
    with cmap_walk_chain [OF inv nb j(2), of "[]" b nxt fuel] j(3)
    have "cmap_walk fuel cm (Inr (Some (b, nxt))) = Some (Inr (map get_key (entries cm)))"
      by (simp add: e)
    with j(1) show ?thesis by (simp add: cmap_traverse_def cmap_first_def)
  qed
qed

subsection \<open>Lookup and replacement\<close>

lemma cmap_get_None_iff:
  assumes "length (buckets cm) = nbuckets cm" "0 < nbuckets cm" "int (nbuckets cm) \<le> INT_MAX"
    and "int (length key) \<le> INT_MAX"
  shows "cmap_get cm key = Inr None \<longleftrightarrow>
   (\<forall>b\<in>set (buckets cm ! bucket_of key (nbuckets cm)). take (length key) (get_key b) \<noteq> key)"
proof -
  have "get_loop key c = None \<longleftrightarrow> (\<forall>b\<in>set c. take (length key) (get_key b) \<noteq> key)" for c
    by (induction c) (simp_all add: strncmp_strlen)
  moreover from assms(1,2) have "bucket_of key (nbuckets cm) < length (buckets cm)"
    by (simp add: bucket_of_less)
  ultimately show ?thesis using assms
    by (simp add: cmap_get_def hash_in_range bucket_at_nat)
qed

lemma put_loop_found:
  "key \<notin> get_key ` set pre \<Longrightarrow> get_key b = key \<Longrightarrow>
   put_loop cm key addr (pre @ b # post) w =
     Some (pre @ set_value cm b addr # post, call_cleanup (clean cm) (get_value b) w)"
  by (induction pre) (auto simp: strcmp_eq_iff)

lemma put_loop_Some_split:
  "put_loop cm key addr c w = Some (c', w') \<Longrightarrow>
   \<exists>pre b post. c = pre @ b # post \<and> key \<notin> get_key ` set pre \<and> get_key b = key \<and>
     c' = pre @ set_value cm b addr # post"
proof (induction c arbitrary: c' w')
  case Nil
  then show ?case by simp
next
  case (Cons a c)
  show ?case
  proof (cases "get_key a = key")
    case True
    with Cons.prems have "c' = set_value cm a addr # c" by (simp add: strcmp_eq_iff)
    with True show ?thesis by (intro exI [of _ "[]"] exI [of _ a] exI [of _ c]) simp
  next
    case False
    with Cons.prems obtain c1 where c1: "put_loop cm key addr c w = Some (c1, w')" "c' = a # c1"
      by (auto simp: strcmp_eq_iff split: option.splits)
    from Cons.IH [OF c1(1)] obtain pre b post where
      "c = pre @ b # post" "key \<notin> get_key ` set pre" "get_key b = key"
      "c1 = pre @ set_value cm b addr # post"
      by blast
    with False c1(2) show ?thesis
      by (intro exI [of _ "a # pre"] exI [of _ b] exI [of _ post]) simp
  qed
qed

text \<open>After a put of \<open>key\<close>, its bucket holds the key once, first among equals, with the value put.\<close>

lemma cmap_put_stored:
  assumes inv: "cmap_inv cm" and nb: "int (nbuckets cm) \<le> INT_MAX"
    and p: "cmap_put cm key addr w = Inr (cm', w')"
  shows "\<exists>pre b post.
     buckets cm' ! bucket_of key (nbuckets cm) = pre @ b # post \<and>
     key \<notin> get_key ` set pre \<and> get_key b = key \<and> get_value b = take (valsz cm) addr"
  using assms
proof (cases rule: cmap_put_cases)
  case new
  from inv have "bucket_of key (nbuckets cm) < length (buckets cm)"
    by (simp add: cmap_inv_def bucket_of_less)
  with new(2) show ?thesis
    by (intro exI [of _ "[]"] exI [of _ "create_blob cm key addr"]
        exI [of _ "buckets cm ! bucket_of key (nbuckets cm)"]) simp
next
  case (old c')
  from inv have bn: "bucket_of key (nbuckets cm) < length (buckets cm)"
    by (simp add: cmap_inv_def bucket_of_less)
  from put_loop_Some_split [OF old(1)] obtain pre b post where
    s: "key \<notin> get_key ` set pre" "get_key b = key" "c' = pre @ set_value cm b addr # post"
    by blast
  with bn old(2) show ?thesis
    by (intro exI [of _ pre] exI [of _ "set_value cm b addr"] exI [of _ post]) simp
qed

text \<open>
  Two puts of one key in a row: the second leaves the count alone and calls the cleanup
  once, on the bytes stored by the first.
\<close>

lemma cmap_put_twice:
  assumes inv: "cmap_inv cm" and nb: "int (nbuckets cm) \<le> INT_MAX"
    and p1: "cmap_put cm key v1 w = Inr (cm1, w1)"
    and p2: "cmap_put cm1 key v2 w1 = Inr (cm2, w2)"
  shows "cmap_count cm2 = cmap_count cm1"
    and "w2 = call_cleanup (clean cm) (take (valsz cm) v1) w1"
proof -
  let ?bn = "bucket_of key (nbuckets cm)"
  from inv nb p1 have inv1: "cmap_inv cm1" by (rule cmap_inv_put)
  from cmap_put_fields [OF inv nb p1]
  have f1: "nbuckets cm1 = nbuckets cm" "clean cm1 = clean cm" by simp_all
  with nb have nb1: "int (nbuckets cm1) \<le> INT_MAX" by simp
  from p1 have klen: "int (length key) \<le> INT_MAX" by (rule cmap_put_Inr(1))
  from cmap_put_stored [OF inv nb p1] obtain pre b post where
    s: "buckets cm1 ! ?bn = pre @ b # post" "key \<notin> get_key ` set pre" "get_key b = key"
      "get_value b = take (valsz cm) v1"
    by auto
  have "put_loop cm1 key v2 (buckets cm1 ! bucket_of key (nbuckets cm1)) w1 =
          Some (pre @ set_value cm1 b v2 # post, call_cleanup (clean cm) (take (valsz cm) v1) w1)"
    using put_loop_found [OF s(2,3), of cm1 v2 post w1] by (simp add: f1 s(1,4))
  from cmap_put_Some [OF inv1 nb1 klen this] p2
  show "cmap_count cm2 = cmap_count cm1"
    and "w2 = call_cleanup (clean cm) (take (valsz cm) v1) w1"
    by (auto simp: cmap_count_def)
qed

subsection \<open>Disposal\<close>

lemma drain_fold: "drain fn c w = fold (\<lambda>b. call_cleanup fn (get_value b)) c w"
  by (induction c arbitrary: w) simp_all

lemma dispose_loop_fold:
  assumes len: "length (buckets cm) = nbuckets cm" and nb: "int (nbuckets cm) \<le> INT_MAX"
  shows "i \<le> nbuckets cm \<Longrightarrow>
   dispose_loop cm (int i) w =
     Inr (fold (\<lambda>b. call_cleanup (clean cm) (get_value b)) (concat (drop i (buckets cm))) w)"
proof (induction n \<equiv> "nbuckets cm - i" arbitrary: i w)
  case 0
  then have "i = nbuckets cm" by simp
  with nb have "size_t_of_int (int i) = nbuckets cm" by (simp add: size_t_of_int_int)
  then have "dispose_loop cm (int i) w = Inr w" by (subst dispose_loop.simps) simp
  with \<open>i = nbuckets cm\<close> len show ?case by simp
next
  case (Suc n)
  then have lt: "i < nbuckets cm" by simp
  with nb have ii: "int i < INT_MAX" by simp
  then have s: "size_t_of_int (int i) = i" by (simp add: size_t_of_int_int)
  from lt len have ba: "bucket_at cm (int i) = Inr (buckets cm ! i)" by (simp add: bucket_at_nat)
  from lt len have d: "drop i (buckets cm) = buckets cm ! i # drop (Suc i) (buckets cm)"
    by (simp add: Cons_nth_drop_Suc)
  have step: "dispose_loop cm (int i) w =
                dispose_loop cm (int (Suc i)) (drain (clean cm) (buckets cm ! i) w)"
    using lt ii by (subst dispose_loop.simps) (simp add: s ba add.commute)
  from Suc.hyps(2) lt have "n = nbuckets cm - Suc i" "Suc i \<le> nbuckets cm" by simp_all
  from Suc.hyps(1) [OF this] step d show ?case by (simp add: drain_fold)
qed

lemma cmap_dispose_fold:
  assumes "length (buckets cm) = nbuckets cm" "int (nbuckets cm) \<le> INT_MAX"
  shows "cmap_dispose cm w =
           Inr (fold (\<lambda>b. call_cleanup (clean cm) (get_value b)) (entries cm) w)"
  using dispose_loop_fold [OF assms, of 0 w] by (simp add: cmap_dispose_def entries_def)

subsection \<open>Concrete tables\<close>

lemma int_of_size_t_1023: "int_of_size_t 1023 = 1023"
  by (simp add: int_of_size_t_id INT_MAX_def)

lemma int_of_size_t_2: "int_of_size_t 2 = 2"
  by (simp add: int_of_size_t_id INT_MAX_def)

lemma hash_k: "hash ''k'' 1023 = Inr 107"
  by (simp add: hash_def MULTIPLIER_def INT_MAX_def size_t_of_int_def int_of_size_t_def)

lemma hash_kis: "hash ''kis'' 1023 = Inr 107"
  by (simp add: hash_def MULTIPLIER_def INT_MAX_def size_t_of_int_def int_of_size_t_def)

lemma hash_a2: "hash ''a'' 2 = Inr 1"
  by (simp add: hash_def MULTIPLIER_def INT_MAX_def size_t_of_int_def int_of_size_t_def)

lemma hash_ab2: "hash ''ab'' 2 = Inr 1"
  by (simp add: hash_def MULTIPLIER_def INT_MAX_def size_t_of_int_def int_of_size_t_def)

lemma hash_b2: "hash ''b'' 2 = Inr 0"
  by (simp add: hash_def MULTIPLIER_def INT_MAX_def size_t_of_int_def int_of_size_t_def)

lemma ex_create: "cmap_create 1 2 None =
    Inr \<lparr>buckets = [[], []], nbuckets = 2, valsz = 1, count = 0, clean = None\<rparr>"
  by (simp add: cmap_create_def numeral_2_eq_2)

lemma ex_puts: "cmap_puts \<lparr>buckets = [[], []], nbuckets = 2, valsz = 1, count = 0, clean = None\<rparr>
       [(''a'', [1]), (''b'', [2]), (''ab'', [3]), (''a'', [4])] () =
     Inr (\<lparr>buckets = [[Blob ''b'' [2]], [Blob ''ab'' [3], Blob ''a'' [4]]],
       nbuckets = 2, valsz = 1, count = 3, clean = None\<rparr>, ())"
  by (simp add: cmap_put_def int_of_size_t_2 hash_a2 hash_ab2 hash_b2 bucket_at_def
      create_blob_def set_value_def call_cleanup_def INT_MAX_def)

subsection \<open>Specified behaviour of the hash table\<close>

text \<open>
  C1. The claim: \<open>cmap_get\<close> on a key that was never put returns \<open>NULL\<close>. The code compares
  with \<open>strncmp\<close> over the length of the search key, so a stored key that starts with the
  search key and shares its bucket is found instead: in a table of the default size,
  after the only put \<open>kis\<close>, getting \<open>k\<close> returns the value of \<open>kis\<close>.
\<close>

theorem cmap_get_finds_longer_key:
  "(case cmap_create 4 0 None of
      Inl e \<Rightarrow> Inl e
    | Inr cm \<Rightarrow>
        (case cmap_put cm ''kis'' [1, 2, 3, 4] () of
           Inl e \<Rightarrow> Inl e
         | Inr (cm', w) \<Rightarrow> cmap_get cm' ''k'')) = Inr (Some [1, 2, 3, 4])"
  by (simp add: cmap_create_def cmap_put_def cmap_get_def int_of_size_t_1023 hash_k hash_kis
      bucket_at_def DEFAULT_CAPACITY_cmap_def create_blob_def set_value_def strlen_def Let_def
      INT_MAX_def)

text \<open>
  C2. The claim: after \<open>Put(k, v1)\<close> and \<open>Put(k, v2)\<close> the count is that after the first put,
  \<open>Get(k)\<close> returns the bytes of \<open>v2\<close>, and the cleanup ran once, on the bytes of \<open>v1\<close>.
  The count and the cleanup are as claimed (\<open>cmap_put_twice\<close>). \<open>Get(k)\<close> is not: with the
  longer key \<open>kis\<close> ahead of \<open>k\<close> in the same chain, the prefix comparison of \<open>cmap_get\<close>
  stops at \<open>kis\<close> and returns its value, here the byte 9 and not the byte 2 put last.
\<close>

theorem cmap_get_after_two_puts_other_value:
  "(case cmap_create 1 0 None of
      Inl e \<Rightarrow> Inl e
    | Inr cm \<Rightarrow>
        (case cmap_puts cm [(''k'', [0]), (''kis'', [9]), (''k'', [1]), (''k'', [2])] () of
           Inl e \<Rightarrow> Inl e
         | Inr (cm', w) \<Rightarrow> cmap_get cm' ''k'')) = Inr (Some [9])"
  by (simp add: cmap_create_def cmap_put_def cmap_get_def int_of_size_t_1023 hash_k hash_kis
      bucket_at_def DEFAULT_CAPACITY_cmap_def create_blob_def set_value_def strlen_def Let_def
      call_cleanup_def INT_MAX_def)

text \<open>
  C3. A table made by \<open>cmap_create\<close> with a bucket count of at most \<open>INT_MAX\<close> and any
  sequence of puts that all return, traversed with \<open>cmap_first\<close> and \<open>cmap_next\<close> until
  \<open>NULL\<close> with no put in between: the traversal ends within \<open>Count()\<close> steps and without an
  error, no key is visited twice, and the keys visited are the keys put. (The puts all
  return when no key is longer than \<open>INT_MAX\<close> and there are at most \<open>INT_MAX\<close> of them:
  \<open>cmap_puts_returns\<close>.)
\<close>

theorem cmap_traversal_visits_each_key_once:
  assumes "cmap_create valuesz capacity_hint fn = Inr cm0"
    and "int capacity_hint \<le> INT_MAX"
    and "cmap_puts cm0 ops w = Inr (cm, w')"
    and "nat (cmap_count cm) \<le> fuel"
  shows "\<exists>ks. cmap_traverse fuel cm = Some (Inr ks) \<and> distinct ks \<and> set ks = fst ` set ops"
proof -
  from assms(1) have inv0: "cmap_inv cm0" by (rule cmap_inv_create)
  from assms(1,2) have nb0: "int (nbuckets cm0) \<le> INT_MAX" by (rule cmap_create_nbuckets)
  from assms(1) have e0: "entries cm0 = []"
    by (auto simp: cmap_create_def entries_def Let_def split: if_splits)
  from cmap_puts_inv [OF inv0 nb0 assms(3)] e0
  have inv: "cmap_inv cm" and nb: "int (nbuckets cm) \<le> INT_MAX"
    and keys: "set (map get_key (entries cm)) = fst ` set ops"
    using nb0 by simp_all
  from inv assms(4) have "length (entries cm) \<le> fuel"
    by (simp add: cmap_inv_def cmap_count_def)
  with inv nb have "cmap_traverse fuel cm = Some (Inr (map get_key (entries cm)))"
    by (rule cmap_traverse_entries)
  moreover from inv have "distinct (map get_key (entries cm))" by (simp add: cmap_inv_def)
  ultimately show ?thesis using keys by blast
qed

theorem cmap_traversal_witness:
  "cmap_create 1 2 (None :: unit cleanup) =
     Inr \<lparr>buckets = [[], []], nbuckets = 2, valsz = 1, count = 0, clean = None\<rparr> \<and>
   int 2 \<le> INT_MAX \<and>
   cmap_puts \<lparr>buckets = [[], []], nbuckets = 2, valsz = 1, count = 0, clean = None\<rparr>
       [(''a'', [1]), (''b'', [2]), (''ab'', [3]), (''a'', [4])] () =
     Inr (\<lparr>buckets = [[Blob ''b'' [2]], [Blob ''ab'' [3], Blob ''a'' [4]]],
       nbuckets = 2, valsz = 1, count = 3, clean = None\<rparr>, ()) \<and>
   nat (cmap_count \<lparr>buckets = [[Blob ''b'' [2]], [Blob ''ab'' [3], Blob ''a'' [4]]],
       nbuckets = 2, valsz = 1, count = 3, clean = (None :: unit cleanup)\<rparr>) \<le> 3 \<and>
   (\<exists>ks. cmap_traverse 3 \<lparr>buckets = [[Blob ''b'' [2]], [Blob ''ab'' [3], Blob ''a'' [4]]],
             nbuckets = 2, valsz = 1, count = 3, clean = (None :: unit cleanup)\<rparr> =
           Some (Inr ks) \<and>
         distinct ks \<and>
         set ks = fst ` set [(''a'', [1::byte]), (''b'', [2]), (''ab'', [3]), (''a'', [4])])"
proof -
  have cap: "int 2 \<le> INT_MAX" by (simp add: INT_MAX_def)
  have fuel: "nat (cmap_count \<lparr>buckets = [[Blob ''b'' [2]], [Blob ''ab'' [3], Blob ''a'' [4]]],
       nbuckets = 2, valsz = 1, count = 3, clean = (None :: unit cleanup)\<rparr>) \<le> 3"
    by (simp add: cmap_count_def)
  from cmap_traversal_visits_each_key_once [OF ex_create cap ex_puts fuel]
  show ?thesis using ex_create cap ex_puts fuel by blast
qed

text \<open>
  C9. In every table reached from \<open>cmap_create\<close>, with a bucket count of at most \<open>INT_MAX\<close>,
  by puts that all return, each blob of bucket \<open>i\<close> has a key that \<open>hash\<close>, called as the
  code calls it, sends to \<open>i\<close>, no key is stored in two blobs, and \<open>count\<close> is the number
  of blobs in all chains. (A put does not return when it would take the count past
  \<open>INT_MAX\<close>, so such a table holds at most \<open>INT_MAX\<close> keys.)
\<close>

theorem cmap_invariant_reachable:
  assumes "cmap_create valuesz capacity_hint fn = Inr cm0"
    and "int capacity_hint \<le> INT_MAX"
    and "cmap_puts cm0 ops w = Inr (cm, w')"
  shows "(\<forall>i<nbuckets cm. \<forall>b\<in>set (buckets cm ! i).
            hash (get_key b) (int_of_size_t (nbuckets cm)) = Inr (int i)) \<and>
         distinct (map get_key (entries cm)) \<and>
         cmap_count cm = int (length (entries cm)) \<and>
         length (buckets cm) = nbuckets cm"
proof -
  from assms(1) have "cmap_inv cm0" by (rule cmap_inv_create)
  moreover from assms(1,2) have "int (nbuckets cm0) \<le> INT_MAX" by (rule cmap_create_nbuckets)
  ultimately have "cmap_inv cm \<and> nbuckets cm = nbuckets cm0 \<and>
      set (map get_key (entries cm)) = set (map get_key (entries cm0)) \<union> fst ` set ops"
    using assms(3) by (rule cmap_puts_inv)
  then have "cmap_inv cm" ..
  then show ?thesis unfolding cmap_inv_def list_all_iff cmap_count_def by simp
qed

theorem cmap_invariant_witness:
  "cmap_create 1 2 (None :: unit cleanup) =
     Inr \<lparr>buckets = [[], []], nbuckets = 2, valsz = 1, count = 0, clean = None\<rparr> \<and>
   int 2 \<le> INT_MAX \<and>
   cmap_puts \<lparr>buckets = [[], []], nbuckets = 2, valsz = 1, count = 0, clean = None\<rparr>
       [(''a'', [1]), (''b'', [2]), (''ab'', [3]), (''a'', [4])] () =
     Inr (\<lparr>buckets = [[Blob ''b'' [2]], [Blob ''ab'' [3], Blob ''a'' [4]]],
       nbuckets = 2, valsz = 1, count = 3, clean = None\<rparr>, ()) \<and>
   hash ''b'' (int_of_size_t 2) = Inr 0 \<and> hash ''ab'' (int_of_size_t 2) = Inr 1 \<and>
   hash ''a'' (int_of_size_t 2) = Inr 1 \<and>
   distinct (map get_key (entries \<lparr>buckets = [[Blob ''b'' [2]], [Blob ''ab'' [3], Blob ''a'' [4]]],
       nbuckets = 2, valsz = 1, count = 3, clean = (None :: unit cleanup)\<rparr>)) \<and>
   cmap_count \<lparr>buckets = [[Blob ''b'' [2]], [Blob ''ab'' [3], Blob ''a'' [4]]],
       nbuckets = 2, valsz = 1, count = 3, clean = (None :: unit cleanup)\<rparr> = 3"
proof -
  let ?cm = "\<lparr>buckets = [[Blob ''b'' [2]], [Blob ''ab'' [3], Blob ''a'' [4]]],
       nbuckets = 2, valsz = 1, count = 3, clean = (None :: unit cleanup)\<rparr>"
  have cap: "int 2 \<le> INT_MAX" by (simp add: INT_MAX_def)
  have h: "hash ''b'' (int_of_size_t 2) = Inr 0" "hash ''ab'' (int_of_size_t 2) = Inr 1"
    "hash ''a'' (int_of_size_t 2) = Inr 1"
    by (simp_all only: int_of_size_t_2 hash_a2 hash_ab2 hash_b2)
  from cmap_invariant_reachable [OF ex_create cap ex_puts]
  have "distinct (map get_key (entries ?cm))" and "cmap_count ?cm = int (length (entries ?cm))"
    by blast+
  moreover have "length (entries ?cm) = 3" by (simp add: entries_def)
  ultimately have "distinct (map get_key (entries ?cm))" and "cmap_count ?cm = 3" by simp_all
  with ex_create cap ex_puts h show ?thesis by (intro conjI)
qed

section \<open>Properties of the dynamic array\<close>

declare cvec_dispose_loop.simps [simp del] bsearch_loop.simps [simp del]

subsection \<open>Slots of a buffer\<close>

lemma length_slots [simp]: "length (slots e n mem) = n"
  by (simp add: slots_def)

lemma nth_slots: "i < n \<Longrightarrow> slots e n mem ! i = take e (drop (i * e) mem)"
  by (simp add: slots_def)

lemma slots_0 [simp]: "slots e 0 mem = []"
  by (simp add: slots_def)

lemma slots_Suc: "slots e (Suc n) mem = take e mem # slots e n (drop e mem)"
proof -
  have "[0..<Suc n] = 0 # map Suc [0..<n]"
    by (simp add: upt_conv_Cons map_Suc_upt del: upt_Suc)
  then show ?thesis
    by (simp add: slots_def comp_def add.commute del: upt_Suc)
qed

lemma slots_concat:
  "\<forall>x\<in>set xs. length x = e \<Longrightarrow> slots e (length xs) (concat xs @ rest) = xs"
  by (induction xs) (simp_all add: slots_Suc)

lemma concat_slots: "n * e \<le> length mem \<Longrightarrow> concat (slots e n mem) = take (n * e) mem"
proof (induction n arbitrary: mem)
  case 0
  then show ?case by simp
next
  case (Suc n)
  then have "n * e \<le> length (drop e mem)" by simp
  with Suc.IH have "concat (slots e n (drop e mem)) = take (n * e) (drop e mem)" by blast
  moreover have "take (e + n * e) mem = take e mem @ take (n * e) (drop e mem)"
    by (rule take_add)
  ultimately show ?case by (simp add: slots_Suc)
qed

lemma slots_lengths:
  assumes "n * e \<le> length mem" and "x \<in> set (slots e n mem)"
  shows "length x = e"
proof -
  from assms(2) obtain i where i: "i < n" "x = take e (drop (i * e) mem)"
    by (auto simp: slots_def)
  from i(1) have "Suc i * e \<le> n * e" by (intro mult_le_mono1) simp
  with assms(1) have "i * e + e \<le> length mem" by simp
  with i(2) show ?thesis by simp
qed

lemma slots_add: "slots e (i + m) mem = slots e i mem @ slots e m (drop (i * e) mem)"
proof (induction i arbitrary: mem)
  case 0
  then show ?case by simp
next
  case (Suc i)
  show ?case by (simp add: slots_Suc Suc.IH add.commute)
qed

lemma take_slots: "i \<le> n \<Longrightarrow> take i (slots e n mem) = slots e i mem"
  by (simp add: slots_def take_map)

lemma drop_slots: "i \<le> n \<Longrightarrow> drop i (slots e n mem) = slots e (n - i) (drop (i * e) mem)"
  using slots_add [of e i "n - i" mem] by simp

lemma slots_prefix:
  assumes "n * e \<le> length mem" and "n * e \<le> length mem'"
    and "take (n * e) mem' = take (n * e) mem"
  shows "slots e n mem' = slots e n mem"
proof -
  have "mem' = concat (slots e n mem) @ drop (n * e) mem'"
    using assms by (simp add: concat_slots) (metis append_take_drop_id)
  moreover have "slots e (length (slots e n mem)) (concat (slots e n mem) @ drop (n * e) mem') =
      slots e n mem"
    by (rule slots_concat) (simp add: slots_lengths [OF assms(1)])
  ultimately show ?thesis by simp
qed

subsection \<open>Insertion\<close>

lemma get_nth_int: "get_nth cv (int i) = int (i * elemsz cv)"
  by (simp add: get_nth_def)

lemma get_nth_int_Suc: "get_nth cv (int i + 1) = int (Suc i * elemsz cv)"
  by (simp add: get_nth_def algebra_simps)

lemma nat_get_nth: "nat (get_nth cv (int i)) = i * elemsz cv"
  by (simp add: get_nth_def nat_mult_distrib)

lemma elems_slots: "elems cv = slots (elemsz cv) (size_cv cv) (data cv)"
  by (simp add: elems_def slots_def deref_def read_at_def nat_get_nth)

lemma shift_total:
  assumes "i \<le> n"
  shows "Suc i * e + e * (n - i) = Suc n * e"
proof -
  have "Suc i * e + (n - i) * e = (Suc i + (n - i)) * e"
    by (simp only: add_mult_distrib)
  also from assms have "Suc i + (n - i) = Suc n" by simp
  finally show ?thesis by (simp add: mult.commute)
qed

lemma insert_mem:
  assumes D: "Suc n * e \<le> length D" and i: "i \<le> n" and v: "length v = e"
  shows "take (i * e) (take (Suc i * e) D @ take (e * (n - i)) (drop (i * e) D) @
             drop (Suc i * e + e * (n - i)) D) @ v @
         drop (i * e + e) (take (Suc i * e) D @ take (e * (n - i)) (drop (i * e) D) @
             drop (Suc i * e + e * (n - i)) D) =
         concat (take i (slots e n D) @ v # drop i (slots e n D)) @ drop (Suc n * e) D"
proof -
  let ?S = "slots e n D"
  from i have ie: "i * e \<le> n * e" by (rule mult_le_mono1)
  from D have nD: "n * e \<le> length D" by simp
  from i have "Suc i * e \<le> Suc n * e" by (intro mult_le_mono1) simp
  then have sD: "Suc i * e \<le> length D" using D by (rule le_trans)
  have l1: "length (take (Suc i * e) D) = i * e + e" using sD by simp
  have a: "take (i * e) (take (Suc i * e) D @ take (e * (n - i)) (drop (i * e) D) @
             drop (Suc i * e + e * (n - i)) D) = take (i * e) D"
    using sD by (simp add: min_def)
  have b: "drop (i * e + e) (take (Suc i * e) D @ take (e * (n - i)) (drop (i * e) D) @
             drop (Suc i * e + e * (n - i)) D) =
           take (e * (n - i)) (drop (i * e) D) @ drop (Suc n * e) D"
    unfolding shift_total [OF i] using l1 by (simp del: length_take mult_Suc)
  from ie nD have "i * e \<le> length D" by (rule le_trans)
  then have "concat (slots e i D) = take (i * e) D"
    by (rule concat_slots)
  with i have c: "take (i * e) D = concat (take i ?S)" by (simp add: take_slots)
  have "(n - i) * e + i * e = n * e" using i by (simp flip: add_mult_distrib)
  with nD have "(n - i) * e \<le> length (drop (i * e) D)" by simp
  then have "concat (slots e (n - i) (drop (i * e) D)) = take ((n - i) * e) (drop (i * e) D)"
    by (rule concat_slots)
  with i have d: "take (e * (n - i)) (drop (i * e) D) = concat (drop i ?S)"
    by (simp add: drop_slots mult.commute)
  let ?M = "take (Suc i * e) D @ take (e * (n - i)) (drop (i * e) D) @
             drop (Suc i * e + e * (n - i)) D"
  have "take (i * e) ?M @ v @ drop (i * e + e) ?M =
        take (i * e) D @ v @ take (e * (n - i)) (drop (i * e) D) @ drop (Suc n * e) D"
    by (simp only: a b)
  also have "\<dots> = concat (take i ?S) @ v @ concat (drop i ?S) @ drop (Suc n * e) D"
    by (simp only: c d)
  finally show ?thesis by simp
qed

lemma insert_mem_slots:
  assumes D: "Suc n * e \<le> length D" and i: "i \<le> n" and v: "length v = e"
  shows "slots e (Suc n) (take (i * e) (take (Suc i * e) D @ take (e * (n - i)) (drop (i * e) D) @
             drop (Suc i * e + e * (n - i)) D) @ v @
         drop (i * e + e) (take (Suc i * e) D @ take (e * (n - i)) (drop (i * e) D) @
             drop (Suc i * e + e * (n - i)) D)) =
         take i (slots e n D) @ v # drop i (slots e n D)"
proof -
  let ?xs = "take i (slots e n D) @ v # drop i (slots e n D)"
  from D have nD: "n * e \<le> length D" by simp
  have "\<forall>x\<in>set ?xs. length x = e"
    using slots_lengths [OF nD] v by (auto dest: in_set_takeD in_set_dropD)
  then have "slots e (length ?xs) (concat ?xs @ drop (Suc n * e) D) = ?xs"
    by (rule slots_concat)
  moreover from i have "length ?xs = Suc n" by simp
  ultimately show ?thesis unfolding insert_mem [OF assms] by simp
qed

lemma memmove_Inr:
  "d + n \<le> length mem \<Longrightarrow> s + n \<le> length mem \<Longrightarrow>
   memmove mem (int d) (int s) n = Inr (take d mem @ take n (drop s mem) @ drop (d + n) mem)"
  by (simp add: memmove_def in_buf_def)

lemma memcpy_Inr:
  "d + n \<le> length mem \<Longrightarrow> n \<le> length src \<Longrightarrow>
   memcpy mem (int d) src n = Inr (take d mem @ take n src @ drop (d + n) mem)"
  by (simp add: memcpy_def in_buf_def)

lemma length_moved:
  "d + n \<le> length mem \<Longrightarrow> s + n \<le> length mem \<Longrightarrow>
   length (take d mem @ take n (drop s mem) @ drop (d + n) mem) = length mem"
  by simp

lemma length_stored:
  "d + n \<le> length mem \<Longrightarrow> n \<le> length src \<Longrightarrow>
   length (take d mem @ take n src @ drop (d + n) mem) = length mem"
  by simp

lemma realloc_grow: "length mem \<le> n \<Longrightarrow> realloc mem n = mem @ replicate (n - length mem) 0"
  by (simp add: realloc_def)

lemma cvec_inv_create: "cvec_create elemsize hint fn = Inr cv \<Longrightarrow> cvec_inv cv \<and> size_cv cv = 0 \<and> elemsz cv = elemsize \<and> clean_cv cv = fn"
  by (auto simp: cvec_create_def cvec_inv_def Let_def DEFAULT_CAPACITY_cvec_def split: if_splits)

lemma cvec_count_id: "int (size_cv cv) \<le> INT_MAX \<Longrightarrow> cvec_count cv = int (size_cv cv)"
  by (simp add: cvec_count_def int_of_size_t_id)

lemma cvec_insert_ok:
  assumes inv: "cvec_inv cv" and idx: "i \<le> size_cv cv" and len: "elemsz cv \<le> length addr"
    and ii: "int i < INT_MAX"
  shows "\<exists>cv'. cvec_insert cv addr (int i) = Inr cv' \<and> cvec_inv cv' \<and>
           size_cv cv' = Suc (size_cv cv) \<and> elemsz cv' = elemsz cv \<and>
           clean_cv cv' = clean_cv cv \<and>
           elems cv' = take i (elems cv) @ take (elemsz cv) addr # drop i (elems cv)"
proof -
  let ?e = "elemsz cv" and ?n = "size_cv cv"
  define cv1 where "cv1 = (if size_cv cv = capacity cv then cvec_expand cv else cv)"
  define D where "D = data cv1"
  have f1: "elemsz cv1 = ?e" "size_cv cv1 = ?n" "clean_cv cv1 = clean_cv cv"
    by (simp_all add: cv1_def cvec_expand_def)
  from inv have nD0: "?n * ?e \<le> length (data cv)"
    by (simp add: cvec_inv_def)
  have cap1: "?n < capacity cv1 \<and> length D = capacity cv1 * ?e \<and>
      take (length (data cv)) D = data cv"
  proof (cases "size_cv cv = capacity cv")
    case True
    with inv have "length (data cv) \<le> ?e * (capacity cv * 2)"
      by (simp add: cvec_inv_def)
    with True inv show ?thesis
      by (simp add: D_def cv1_def cvec_expand_def realloc_grow cvec_inv_def)
  next
    case False
    with inv show ?thesis by (simp add: D_def cv1_def cvec_inv_def)
  qed
  then have "Suc ?n * ?e \<le> capacity cv1 * ?e" by (intro mult_le_mono1) simp
  with cap1 have D1: "Suc ?n * ?e \<le> length D" by simp
  then have nD: "?n * ?e \<le> length D" by simp
  have "take (?n * ?e) D = take (?n * ?e) (take (length (data cv)) D)"
    using nD0 by (simp add: min_def)
  with cap1 have "take (?n * ?e) D = take (?n * ?e) (data cv)" by simp
  note this
  from slots_prefix [OF nD0 nD this] have S: "slots ?e ?n D = slots ?e ?n (data cv)" .
  define M1 where "M1 = take (Suc i * ?e) D @ take (?e * (?n - i)) (drop (i * ?e) D) @
               drop (Suc i * ?e + ?e * (?n - i)) D"
  define M2 where "M2 = take (i * ?e) M1 @ take ?e addr @ drop (i * ?e + ?e) M1"
  have tot: "Suc i * ?e + ?e * (?n - i) = Suc ?n * ?e" by (rule shift_total [OF idx])
  have "i * ?e + ?e * (?n - i) \<le> Suc i * ?e + ?e * (?n - i)" by simp
  with tot D1 have src: "i * ?e + ?e * (?n - i) \<le> length D" by simp
  from tot D1 have dst: "Suc i * ?e + ?e * (?n - i) \<le> length D" by simp
  have mm: "memmove (data cv1) (get_nth cv1 (int i + 1)) (get_nth cv1 (int i))
              (elemsz cv1 * (size_cv cv1 - i)) = Inr M1"
    unfolding get_nth_int get_nth_int_Suc f1 D_def [symmetric] M1_def
    by (rule memmove_Inr [OF dst src])
  have lM1: "length M1 = length D"
    unfolding M1_def by (rule length_moved [OF dst src])
  from idx have "Suc i * ?e \<le> Suc ?n * ?e" by (intro mult_le_mono1) simp
  then have "Suc i * ?e \<le> length D" using D1 by (rule le_trans)
  then have "i * ?e + ?e \<le> length D" by (simp add: add.commute)
  with lM1 have fit: "i * ?e + ?e \<le> length M1" by (simp only:)
  have mc: "memcpy M1 (get_nth cv1 (int i)) addr (elemsz cv1) = Inr M2"
    unfolding get_nth_int f1 M2_def by (rule memcpy_Inr [OF fit len])
  have "length M2 = length M1"
    unfolding M2_def by (rule length_stored [OF fit len])
  with lM1 have lM2: "length M2 = length D" by (simp only:)
  let ?cv' = "cv1\<lparr>data := M2, size_cv := size_cv cv1 + 1\<rparr>"
  from ii have ng: "(INT_MAX \<le> int i) = False" by simp
  have ins: "cvec_insert cv addr (int i) = Inr ?cv'"
    unfolding cvec_insert_def Let_def cv1_def [symmetric] using idx
    by (simp only: nat_int of_nat_0_le_iff mm mc ng if_True if_False simp_thms sum.case)
  have "slots ?e (Suc ?n) M2 =
          take i (slots ?e ?n D) @ take ?e addr # drop i (slots ?e ?n D)"
    unfolding M2_def M1_def using len by (intro insert_mem_slots [OF D1 idx]) simp
  then have el: "elems ?cv' = take i (elems cv) @ take ?e addr # drop i (elems cv)"
    by (simp add: elems_slots f1 S)
  from inv cap1 have inv': "cvec_inv ?cv'"
    using lM2 by (simp add: cvec_inv_def f1 D_def)
  show ?thesis using ins inv' el f1 by (intro exI [of _ ?cv']) simp
qed

lemma length_elems [simp]: "length (elems cv) = size_cv cv"
  by (simp add: elems_def)

lemma nth_elems: "i < size_cv cv \<Longrightarrow> elems cv ! i = deref cv (get_nth cv (int i))"
  by (simp add: elems_def)

lemma cvec_append_ok:
  assumes "cvec_inv cv" and "elemsz cv \<le> length addr" and "int (size_cv cv) < INT_MAX"
  shows "\<exists>cv'. cvec_append cv addr = Inr cv' \<and> cvec_inv cv' \<and>
           size_cv cv' = Suc (size_cv cv) \<and> elemsz cv' = elemsz cv \<and>
           clean_cv cv' = clean_cv cv \<and>
           elems cv' = elems cv @ [take (elemsz cv) addr]"
  using cvec_insert_ok [OF assms(1) le_refl assms(2,3)] assms(3)
  by (simp add: cvec_append_def cvec_count_id)

lemma cvec_run_ok:
  "cvec_inv cv \<Longrightarrow> ops_ok (elemsz cv) (size_cv cv) ops \<Longrightarrow>
   int (size_cv cv + length ops) \<le> INT_MAX \<Longrightarrow>
   \<exists>cv'. cvec_run cv ops = Inr cv' \<and> cvec_inv cv' \<and>
     size_cv cv' = size_cv cv + length ops \<and> elemsz cv' = elemsz cv \<and>
     clean_cv cv' = clean_cv cv \<and>
     elems cv' = foldl (spec_apply (elemsz cv)) (elems cv) ops"
proof (induction ops arbitrary: cv)
  case Nil
  then show ?case by simp
next
  case (Cons x ops)
  have "\<exists>cv1. cvec_apply cv x = Inr cv1 \<and> cvec_inv cv1 \<and> size_cv cv1 = Suc (size_cv cv) \<and>
          elemsz cv1 = elemsz cv \<and> clean_cv cv1 = clean_cv cv \<and>
          elems cv1 = spec_apply (elemsz cv) (elems cv) x"
  proof (cases x)
    case (Append addr)
    with Cons.prems show ?thesis using cvec_append_ok [of cv addr] by simp
  next
    case (InsertAt addr index)
    with Cons.prems have "0 \<le> index" "nat index \<le> size_cv cv" "elemsz cv \<le> length addr"
      by auto
    moreover from this(1,2) Cons.prems(3) have "int (nat index) < INT_MAX" by auto
    ultimately show ?thesis
      using Cons.prems(1) InsertAt cvec_insert_ok [of cv "nat index" addr] by simp
  qed
  then obtain cv1 where cv1: "cvec_apply cv x = Inr cv1" "cvec_inv cv1"
    "size_cv cv1 = Suc (size_cv cv)" "elemsz cv1 = elemsz cv" "clean_cv cv1 = clean_cv cv"
    "elems cv1 = spec_apply (elemsz cv) (elems cv) x"
    by blast
  from Cons.prems(2) have "ops_ok (elemsz cv1) (size_cv cv1) ops"
    by (cases x) (simp_all add: cv1)
  moreover from Cons.prems(3) have "int (size_cv cv1 + length ops) \<le> INT_MAX"
    by (simp add: cv1(3))
  ultimately obtain cv' where
    "cvec_run cv1 ops = Inr cv'" "cvec_inv cv'" "size_cv cv' = size_cv cv1 + length ops"
    "elemsz cv' = elemsz cv1" "clean_cv cv' = clean_cv cv1"
    "elems cv' = foldl (spec_apply (elemsz cv1)) (elems cv1) ops"
    using Cons.IH [OF cv1(2)] by blast
  with cv1 show ?case by simp
qed

lemma cvec_nth_live:
  "i < size_cv cv \<Longrightarrow> cvec_nth cv (int i) = Inr (get_nth cv (int i))"
  by (simp add: cvec_nth_def size_t_sub_def)

lemma elems_create: "cvec_create elemsize hint fn = Inr cv \<Longrightarrow> elems cv = []"
  using cvec_inv_create [of elemsize hint fn cv] by (simp add: elems_def)

subsection \<open>Iteration, bounds check, disposal\<close>

lemma cvec_next_last:
  assumes "int (size_cv cv) \<le> INT_MAX"
  shows "cvec_next cv (get_nth cv (cvec_count cv - 1)) = Inr None"
proof -
  from assms have "\<not> cvec_count cv - 1 < INT_MIN"
    by (simp add: cvec_count_id INT_MIN_def)
  then show ?thesis by (simp add: cvec_next_def get_nth_def mult.commute)
qed

lemma cvec_next_inner:
  assumes "cvec_inv cv" and "Suc i < size_cv cv" and "int (size_cv cv) \<le> INT_MAX"
  shows "cvec_next cv (get_nth cv (int i)) = Inr (Some (get_nth cv (int (Suc i))))"
proof -
  from assms have "i * elemsz cv \<noteq> elemsz cv * (size_cv cv - 1)"
    by (auto simp: cvec_inv_def)
  then have "int (i * elemsz cv) \<noteq> int (elemsz cv * (size_cv cv - 1))"
    by (simp only: of_nat_eq_iff not_False_eq_True)
  moreover from assms(2) have "int (size_cv cv - 1) = int (size_cv cv) - 1" by simp
  ultimately have "get_nth cv (int i) \<noteq> int (elemsz cv) * (cvec_count cv - 1)"
    by (simp add: get_nth_def cvec_count_id [OF assms(3)])
  moreover from assms(3) have "\<not> cvec_count cv - 1 < INT_MIN"
    by (simp add: cvec_count_id INT_MIN_def)
  ultimately show ?thesis
    by (simp add: cvec_next_def) (simp add: get_nth_def algebra_simps)
qed

lemma cvec_walk_from:
  assumes inv: "cvec_inv cv" and sz: "int (size_cv cv) \<le> INT_MAX"
  shows "i < size_cv cv \<Longrightarrow> size_cv cv - i \<le> fuel \<Longrightarrow>
     cvec_walk fuel cv (Inr (Some (get_nth cv (int i)))) = Some (Inr (drop i (elems cv)))"
proof (induction fuel arbitrary: i)
  case 0
  then show ?case by simp
next
  case (Suc fuel)
  from Suc.prems(1) have d: "drop i (elems cv) = deref cv (get_nth cv (int i)) # drop (Suc i) (elems cv)"
    by (simp add: nth_elems flip: Cons_nth_drop_Suc)
  show ?case
  proof (cases "Suc i < size_cv cv")
    case True
    with Suc.prems have "cvec_walk fuel cv (Inr (Some (get_nth cv (int (Suc i))))) =
        Some (Inr (drop (Suc i) (elems cv)))"
      by (intro Suc.IH) simp_all
    with True d show ?thesis by (simp add: cvec_next_inner [OF inv _ sz])
  next
    case False
    with Suc.prems(1) have "int i = cvec_count cv - 1" by (simp add: cvec_count_id [OF sz])
    with False d show ?thesis by (simp add: cvec_next_last [OF sz])
  qed
qed

lemma cvec_traverse_elems:
  assumes "cvec_inv cv" and "size_cv cv \<le> fuel" and "int (size_cv cv) \<le> INT_MAX"
  shows "cvec_traverse fuel cv = Some (Inr (elems cv))"
proof (cases "size_cv cv = 0")
  case True
  then show ?thesis by (simp add: cvec_traverse_def cvec_first_def elems_def)
next
  case False
  with assms(2) cvec_walk_from [OF assms(1,3), of 0 fuel] show ?thesis
    by (simp add: cvec_traverse_def cvec_first_def get_nth_def)
qed

lemma front_inserts_ok: "ops_ok esz n (map (\<lambda>x. InsertAt x 0) es) \<longleftrightarrow> (\<forall>x\<in>set es. esz \<le> length x)"
  by (induction es arbitrary: n) auto

lemma front_inserts_spec:
  "foldl (spec_apply esz) xs (map (\<lambda>x. InsertAt x 0) es) = rev (map (take esz) es) @ xs"
  by (induction es arbitrary: xs) simp_all

lemma cvec_nth_nonempty:
  "0 < size_cv cv \<Longrightarrow> int (size_cv cv) \<le> INT_MAX \<Longrightarrow>
   cvec_nth cv index = (if 0 \<le> index \<and> index < cvec_count cv then Inr (get_nth cv index)
                        else Inl AssertFail)"
  by (auto simp: cvec_nth_def size_t_sub_def cvec_count_id)

lemma cvec_dispose_loop_fold:
  assumes sz: "int (size_cv cv) \<le> INT_MAX"
  shows "i \<le> size_cv cv \<Longrightarrow>
    cvec_dispose_loop cv f (int i) w = Inr (fold f (drop i (elems cv)) w)"
proof (induction n \<equiv> "size_cv cv - i" arbitrary: i w)
  case 0
  then have "i = size_cv cv" by simp
  with sz have "size_t_of_int (int i) = size_cv cv" by (simp add: size_t_of_int_int)
  then have "cvec_dispose_loop cv f (int i) w = Inr w"
    by (subst cvec_dispose_loop.simps) simp
  with \<open>i = size_cv cv\<close> show ?case by simp
next
  case (Suc n)
  then have lt: "i < size_cv cv" by simp
  with sz have ii: "int i < INT_MAX" by simp
  then have s: "size_t_of_int (int i) = i" by (simp add: size_t_of_int_int)
  from lt have d: "drop i (elems cv) = deref cv (get_nth cv (int i)) # drop (Suc i) (elems cv)"
    by (simp add: nth_elems flip: Cons_nth_drop_Suc)
  have step: "cvec_dispose_loop cv f (int i) w =
                cvec_dispose_loop cv f (int (Suc i)) (f (deref cv (get_nth cv (int i))) w)"
    using lt ii by (subst cvec_dispose_loop.simps) (simp add: s add.commute)
  from Suc.hyps(2) lt have "n = size_cv cv - Suc i" "Suc i \<le> size_cv cv" by simp_all
  from Suc.hyps(1) [OF this] step d show ?case by simp
qed

lemma cvec_dispose_fold:
  assumes "int (size_cv cv) \<le> INT_MAX"
  shows "cvec_dispose cv w =
           Inr (case clean_cv cv of None \<Rightarrow> w | Some f \<Rightarrow> fold f (elems cv) w)"
  using cvec_dispose_loop_fold [OF assms, of 0]
  by (simp add: cvec_dispose_def split: option.splits)

subsection \<open>Search\<close>

lemma bsearch_loop_sound:
  fixes compar :: "'k compare_fn"
  defines "f \<equiv> \<lambda>key mem base sz compar i. compar key (read_at mem (base + int (i * sz)) sz)"
  shows "\<forall>i j. i \<le> j \<and> j < num \<longrightarrow> sgn (f key mem base sz compar j) \<le> sgn (f key mem base sz compar i) \<Longrightarrow>
     u \<le> num \<Longrightarrow> (\<forall>i<num. f key mem base sz compar i = 0 \<longrightarrow> l \<le> i \<and> i < u) \<Longrightarrow>
     (bsearch_loop key mem base sz compar l u = None \<and> (\<forall>i<num. f key mem base sz compar i \<noteq> 0)) \<or>
     (\<exists>idx. l \<le> idx \<and> idx < u \<and>
        bsearch_loop key mem base sz compar l u = Some (base + int (idx * sz)) \<and>
        f key mem base sz compar idx = 0)"
proof (induction key mem base sz compar l u rule: bsearch_loop.induct)
  case (1 key mem base sz compar l u)
  let ?g = "f key mem base sz compar"
  let ?idx = "(l + u) div 2"
  show ?case
  proof (cases "l < u")
    case False
    with "1.prems"(3) have "\<forall>i<num. ?g i \<noteq> 0" by fastforce
    with False show ?thesis by (subst bsearch_loop.simps) simp
  next
    case True
    then have idx: "l \<le> ?idx" "?idx < u" by simp_all
    with "1.prems"(2) have idxn: "?idx < num" by simp
    consider (lt) "?g ?idx < 0" | (gt) "?g ?idx > 0" | (eq) "?g ?idx = 0" by linarith
    then show ?thesis
    proof cases
      case lt
      have "\<forall>i<num. ?g i = 0 \<longrightarrow> l \<le> i \<and> i < ?idx"
      proof (intro allI impI)
        fix i assume i: "i < num" "?g i = 0"
        with "1.prems"(3) have li: "l \<le> i" by simp
        have "i < ?idx"
        proof (rule ccontr)
          assume "\<not> i < ?idx"
          with i(1) "1.prems"(1) have "sgn (?g i) \<le> sgn (?g ?idx)" by simp
          with lt i(2) show False by simp
        qed
        with li show "l \<le> i \<and> i < ?idx" by simp
      qed
      moreover from idx "1.prems"(2) have "?idx \<le> num" by simp
      ultimately have "(bsearch_loop key mem base sz compar l ?idx = None \<and> (\<forall>i<num. ?g i \<noteq> 0)) \<or>
         (\<exists>k. l \<le> k \<and> k < ?idx \<and>
            bsearch_loop key mem base sz compar l ?idx = Some (base + int (k * sz)) \<and> ?g k = 0)"
        using "1.IH"(1) [OF True refl refl refl _ "1.prems"(1)] lt by (simp add: f_def)
      moreover have "bsearch_loop key mem base sz compar l u =
           bsearch_loop key mem base sz compar l ?idx"
        using True lt by (subst bsearch_loop.simps) (simp add: f_def Let_def)
      ultimately show ?thesis using idx by (metis less_trans)
    next
      case gt
      have "\<forall>i<num. ?g i = 0 \<longrightarrow> ?idx + 1 \<le> i \<and> i < u"
      proof (intro allI impI)
        fix i assume i: "i < num" "?g i = 0"
        with "1.prems"(3) have iu: "i < u" by simp
        have "?idx < i"
        proof (rule ccontr)
          assume "\<not> ?idx < i"
          with idxn "1.prems"(1) have "sgn (?g ?idx) \<le> sgn (?g i)" by simp
          with gt i(2) show False by simp
        qed
        with iu show "?idx + 1 \<le> i \<and> i < u" by simp
      qed
      then have "(bsearch_loop key mem base sz compar (?idx + 1) u = None \<and> (\<forall>i<num. ?g i \<noteq> 0)) \<or>
         (\<exists>k. ?idx + 1 \<le> k \<and> k < u \<and>
            bsearch_loop key mem base sz compar (?idx + 1) u = Some (base + int (k * sz)) \<and> ?g k = 0)"
        using "1.IH"(2) [OF True refl refl refl _ _ "1.prems"(1,2)] gt by (simp add: f_def)
      moreover have "bsearch_loop key mem base sz compar l u =
           bsearch_loop key mem base sz compar (?idx + 1) u"
        using True gt by (subst bsearch_loop.simps) (simp add: f_def Let_def)
      ultimately show ?thesis using idx by (metis Suc_eq_plus1 Suc_leD le_trans)
    next
      case eq
      have "bsearch_loop key mem base sz compar l u = Some (base + int (?idx * sz))"
        using True eq by (subst bsearch_loop.simps) (simp add: f_def Let_def)
      with eq idx show ?thesis by blast
    qed
  qed
qed

lemma lfind_loop_gen:
  fixes g :: "nat \<Rightarrow> int"
  assumes "\<And>i. i < cnt \<Longrightarrow> g i = compar key (read_at mem (result + int (i * sz)) sz)"
  shows "(lfind_loop key mem result cnt sz compar = None \<and> (\<forall>i<cnt. g i \<noteq> 0)) \<or>
     (\<exists>k<cnt. lfind_loop key mem result cnt sz compar = Some (result + int (k * sz)) \<and>
        g k = 0 \<and> (\<forall>i<k. g i \<noteq> 0))"
  using assms
proof (induction cnt arbitrary: result g)
  case 0
  then show ?case by simp
next
  case (Suc cnt)
  have g0: "g 0 = compar key (read_at mem result sz)"
    using Suc.prems [of 0] by simp
  show ?case
  proof (cases "g 0 = 0")
    case True
    with g0 show ?thesis by (intro disjI2 exI [of _ 0]) simp
  next
    case False
    have "(g \<circ> Suc) i = compar key (read_at mem (result + int sz + int (i * sz)) sz)"
      if "i < cnt" for i
    proof -
      have eq: "result + int sz + int (i * sz) = result + int (Suc i * sz)"
        by (simp add: algebra_simps)
      from that have "g (Suc i) = compar key (read_at mem (result + int (Suc i * sz)) sz)"
        by (intro Suc.prems) simp
      then show ?thesis by (simp only: comp_apply eq)
    qed
    from Suc.IH [of "g \<circ> Suc" "result + int sz", OF this]
    have "(lfind_loop key mem (result + int sz) cnt sz compar = None \<and>
             (\<forall>i<cnt. g (Suc i) \<noteq> 0)) \<or>
          (\<exists>k<cnt. lfind_loop key mem (result + int sz) cnt sz compar =
               Some (result + int sz + int (k * sz)) \<and>
             g (Suc k) = 0 \<and> (\<forall>i<k. g (Suc i) \<noteq> 0))"
      by simp
    then show ?thesis
    proof (elim disjE exE conjE)
      assume none: "lfind_loop key mem (result + int sz) cnt sz compar = None"
        "\<forall>i<cnt. g (Suc i) \<noteq> 0"
      from none(2) False have "\<forall>i<Suc cnt. g i \<noteq> 0"
        by (auto simp: less_Suc_eq_0_disj)
      with none(1) False g0 show ?thesis by simp
    next
      fix k
      assume some: "k < cnt"
        "lfind_loop key mem (result + int sz) cnt sz compar = Some (result + int sz + int (k * sz))"
        "g (Suc k) = 0" "\<forall>i<k. g (Suc i) \<noteq> 0"
      from some(4) False have nz: "\<forall>i<Suc k. g i \<noteq> 0"
        by (auto simp: less_Suc_eq_0_disj)
      have "result + int sz + int (k * sz) = result + int (Suc k * sz)"
        by (simp add: algebra_simps)
      with some(2) False g0
      have "lfind_loop key mem result (Suc cnt) sz compar = Some (result + int (Suc k * sz))"
        by simp
      with some(1,3) nz show ?thesis
        by (intro disjI2 exI [of _ "Suc k"]) blast
    qed
  qed
qed

lemma lfind_loop_first:
  "(lfind_loop key mem result cnt sz compar = None \<and>
      (\<forall>i<cnt. compar key (read_at mem (result + int (i * sz)) sz) \<noteq> 0)) \<or>
   (\<exists>k<cnt. lfind_loop key mem result cnt sz compar = Some (result + int (k * sz)) \<and>
      compar key (read_at mem (result + int (k * sz)) sz) = 0 \<and>
      (\<forall>i<k. compar key (read_at mem (result + int (i * sz)) sz) \<noteq> 0))"
  by (rule lfind_loop_gen) simp

lemma read_slot:
  assumes "s + i < size_cv cv"
  shows "read_at (data cv) (get_nth cv (int s) + int (i * elemsz cv)) (elemsz cv) =
         elems cv ! (s + i)"
proof -
  have "get_nth cv (int s) + int (i * elemsz cv) = get_nth cv (int (s + i))"
    by (simp add: get_nth_def algebra_simps)
  with assms show ?thesis by (simp add: nth_elems deref_def)
qed

lemma slot_index:
  assumes e: "0 < elemsz cv" and r: "int (s + k) \<le> INT_MAX"
  shows "int_of_size_t (nat (get_nth cv (int s) + int (k * elemsz cv)) div elemsz cv) =
         int (s + k)"
proof -
  have "get_nth cv (int s) + int (k * elemsz cv) = int ((s + k) * elemsz cv)"
    by (simp add: get_nth_def algebra_simps)
  then have "nat (get_nth cv (int s) + int (k * elemsz cv)) = (s + k) * elemsz cv"
    by (simp only: nat_int)
  with e have "nat (get_nth cv (int s) + int (k * elemsz cv)) div elemsz cv = s + k"
    by simp
  with r show ?thesis by (simp only: int_of_size_t_id)
qed

subsection \<open>Concrete arrays\<close>

lemma ex_vec_create:
  "cvec_create 2 1 None = Inr \<lparr>data = [0, 0], size_cv = 0, capacity = 1, elemsz = 2, clean_cv = None\<rparr>"
  by (simp add: cvec_create_def numeral_2_eq_2)

lemma ex_vec_run:
  "cvec_run \<lparr>data = [0, 0], size_cv = 0, capacity = 1, elemsz = 2, clean_cv = None\<rparr>
     [Append [1, 2], InsertAt [3, 4] 0, Append [5, 6]] =
   Inr \<lparr>data = [3, 4, 1, 2, 5, 6, 0, 0], size_cv = 3, capacity = 4, elemsz = 2, clean_cv = None\<rparr>"
  by (simp add: cvec_append_def cvec_insert_def cvec_count_id INT_MAX_def cvec_expand_def realloc_def
      memmove_def memcpy_def in_buf_def get_nth_def Let_def numeral_2_eq_2)

lemma ex_vec_inv:
  "cvec_inv \<lparr>data = [3, 4, 1, 2, 5, 6, 0, 0], size_cv = 3, capacity = 4, elemsz = 2,
      clean_cv = fn\<rparr>"
  by (simp add: cvec_inv_def)

lemma ex_vec1_create:
  "cvec_create 1 2 None = Inr \<lparr>data = [0, 0], size_cv = 0, capacity = 2, elemsz = 1, clean_cv = None\<rparr>"
  by (simp add: cvec_create_def numeral_2_eq_2)

lemma ex555_create:
  "cvec_create 1 4 None =
     Inr \<lparr>data = [0, 0, 0, 0], size_cv = 0, capacity = 4, elemsz = 1, clean_cv = None\<rparr>"
  by (simp add: cvec_create_def eval_nat_numeral)

lemma ex555_run:
  "cvec_run \<lparr>data = [0, 0, 0, 0], size_cv = 0, capacity = 4, elemsz = 1, clean_cv = None\<rparr>
     [Append [5], Append [5], Append [5]] =
   Inr \<lparr>data = [5, 5, 5, 0], size_cv = 3, capacity = 4, elemsz = 1, clean_cv = None\<rparr>"
  by (simp add: cvec_append_def cvec_insert_def cvec_count_id INT_MAX_def cvec_expand_def realloc_def
      memmove_def memcpy_def in_buf_def get_nth_def Let_def)

lemma call_cleanup_Some: "call_cleanup (Some f) bytes = f bytes"
  by (rule ext) (simp add: call_cleanup_def)

lemma call_cleanup_None: "call_cleanup None bytes = (\<lambda>w. w)"
  by (rule ext) (simp add: call_cleanup_def)

lemma ex_log_inv:
  "cmap_inv \<lparr>buckets = [[Blob ''b'' [2]], [Blob ''ab'' [3], Blob ''a'' [4]]],
       nbuckets = 2, valsz = 1, count = 3, clean = fn\<rparr>"
  by (simp add: cmap_inv_def entries_def int_of_size_t_2 hash_a2 hash_ab2 hash_b2 upt_rec)

subsection \<open>Specified behaviour of the dynamic array\<close>

text \<open>
  C4. The claim: \<open>cvec_nth\<close> with an index outside \<open>0 \<le> index < Count()\<close> fails its
  assertion, also on an empty array. On an empty array \<open>cv->size - 1\<close> wraps around to the
  largest \<open>size_t\<close>, so the assertion passes for every index that is not negative and an
  address is returned: index 0 of a fresh array gives the address of slot 0. On an array
  of 1 to \<open>INT_MAX\<close> elements the check is as claimed (\<open>cvec_nth_nonempty\<close>).
\<close>

theorem cvec_nth_empty_passes:
  "(case cvec_create 4 0 None of Inl e \<Rightarrow> Inl e | Inr cv \<Rightarrow> cvec_nth cv 0) = Inr 0"
  by (simp add: cvec_create_def cvec_nth_def size_t_sub_def get_nth_def Let_def)

text \<open>
  C5. Any sequence of at most \<open>INT_MAX\<close> \<open>Append\<close> and \<open>InsertAt\<close> calls on a fresh array,
  each index within \<open>0 \<le> index \<le> count\<close> at its call: every call returns, \<open>Count()\<close> is then the number of
  calls, and for each \<open>i\<close> below it \<open>ElementAt(i)\<close> returns the address of slot \<open>i\<close>, which
  holds the bytes at position \<open>i\<close> of the list the spec describes, where \<open>InsertAt\<close>
  moves the elements from its index on one place up. Growth of the buffer is part of
  the runs covered.
\<close>

theorem cvec_inserts_content:
  assumes "cvec_create elemsize hint fn = Inr cv0" and "ops_ok elemsize 0 ops"
    and "int (length ops) \<le> INT_MAX"
  shows "\<exists>cv. cvec_run cv0 ops = Inr cv \<and> cvec_count cv = int (length ops) \<and>
           (\<forall>i<length ops. cvec_nth cv (int i) = Inr (get_nth cv (int i)) \<and>
              deref cv (get_nth cv (int i)) = spec_run elemsize ops ! i)"
proof -
  from assms(1) have c: "cvec_inv cv0" "size_cv cv0 = 0" "elemsz cv0 = elemsize" "elems cv0 = []"
    using cvec_inv_create [of elemsize hint fn cv0] elems_create by auto
  with assms(2) have ok: "ops_ok (elemsz cv0) (size_cv cv0) ops" by simp
  from assms(3) c(2) have "int (size_cv cv0 + length ops) \<le> INT_MAX" by simp
  from cvec_run_ok [OF c(1) ok this] obtain cv where
    cv: "cvec_run cv0 ops = Inr cv" "size_cv cv = length ops" "elems cv = spec_run elemsize ops"
    by (auto simp: c spec_run_def)
  have "cvec_nth cv (int i) = Inr (get_nth cv (int i)) \<and>
        deref cv (get_nth cv (int i)) = spec_run elemsize ops ! i" if "i < length ops" for i
    using that cv(2) cvec_nth_live [of i cv] nth_elems [of i cv] by (simp add: cv(3))
  with cv assms(3) show ?thesis by (auto simp: cvec_count_id)
qed

theorem cvec_inserts_content_witness:
  "cvec_create 2 1 (None :: unit cleanup) =
     Inr \<lparr>data = [0, 0], size_cv = 0, capacity = 1, elemsz = 2, clean_cv = None\<rparr> \<and>
   ops_ok 2 0 [Append [1, 2], InsertAt [3, 4] 0, Append [5, 6]] \<and>
   int (length [Append [1, 2], InsertAt [3, 4] 0, Append [5, 6]]) \<le> INT_MAX \<and>
   spec_run 2 [Append [1, 2], InsertAt [3, 4] 0, Append [5, 6]] = [[3, 4], [1, 2], [5, 6]] \<and>
   cvec_run \<lparr>data = [0, 0], size_cv = 0, capacity = 1, elemsz = 2,
               clean_cv = (None :: unit cleanup)\<rparr>
       [Append [1, 2], InsertAt [3, 4] 0, Append [5, 6]] =
     Inr \<lparr>data = [3, 4, 1, 2, 5, 6, 0, 0], size_cv = 3, capacity = 4, elemsz = 2,
           clean_cv = None\<rparr> \<and>
   (\<exists>cv. cvec_run \<lparr>data = [0, 0], size_cv = 0, capacity = 1, elemsz = 2,
               clean_cv = (None :: unit cleanup)\<rparr>
             [Append [1, 2], InsertAt [3, 4] 0, Append [5, 6]] = Inr cv \<and>
         cvec_count cv = int (length [Append [1, 2], InsertAt [3, 4] 0, Append [5, 6]]) \<and>
         (\<forall>i<length [Append [1, 2], InsertAt [3, 4] 0, Append [5, 6]].
            cvec_nth cv (int i) = Inr (get_nth cv (int i)) \<and>
            deref cv (get_nth cv (int i)) =
              spec_run 2 [Append [1, 2], InsertAt [3, 4] 0, Append [5, 6]] ! i))"
proof -
  have ok: "ops_ok 2 0 [Append [1, 2], InsertAt [3, 4] 0, Append [5, 6]]" by simp
  have sp: "spec_run 2 [Append [1, 2], InsertAt [3, 4] 0, Append [5, 6]] = [[3, 4], [1, 2], [5, 6]]"
    by (simp add: spec_run_def)
  have n: "int (length [Append [1, 2], InsertAt [3, 4] 0, Append [5, 6]]) \<le> INT_MAX"
    by (simp add: INT_MAX_def)
  from cvec_inserts_content [OF ex_vec_create ok n] ex_vec_create ok n sp ex_vec_run
  show ?thesis by blast
qed

text \<open>
  C6, as stated: \<open>Search\<close> returns the index of the first matching element in both modes.
  In the sorted mode it does not: \<open>bsearch\<close> returns the first probe that compares equal.
  On the array of the three elements 5, 5, 5, sorted, the search for 5 from index 0
  returns index 1, and the element at index 0 matches as well.
\<close>

theorem cvec_search_sorted_not_first:
  "cvec_create 1 4 (None :: unit cleanup) =
     Inr \<lparr>data = [0, 0, 0, 0], size_cv = 0, capacity = 4, elemsz = 1, clean_cv = None\<rparr> \<and>
   cvec_run \<lparr>data = [0, 0, 0, 0], size_cv = 0, capacity = 4, elemsz = 1,
       clean_cv = (None :: unit cleanup)\<rparr> [Append [5], Append [5], Append [5]] =
     Inr \<lparr>data = [5, 5, 5, 0], size_cv = 3, capacity = 4, elemsz = 1, clean_cv = None\<rparr> \<and>
   int (size_cv \<lparr>data = [5, 5, 5, 0], size_cv = 3, capacity = 4, elemsz = 1,
       clean_cv = (None :: unit cleanup)\<rparr>) \<le> INT_MAX \<and>
   elems \<lparr>data = [5, 5, 5, 0], size_cv = 3, capacity = 4, elemsz = 1,
       clean_cv = (None :: unit cleanup)\<rparr> = [[5], [5], [5]] \<and>
   key_sorted cmp_u8 [5] [[5], [5], [5]] \<and>
   cmp_u8 [5] [5] = 0 \<and>
   cvec_search \<lparr>data = [5, 5, 5, 0], size_cv = 3, capacity = 4, elemsz = 1,
       clean_cv = (None :: unit cleanup)\<rparr> [5] cmp_u8 0 True = Inr 1"
proof -
  let ?cv = "\<lparr>data = [5, 5, 5, 0], size_cv = 3, capacity = 4, elemsz = 1,
       clean_cv = (None :: unit cleanup)\<rparr>"
  have e: "elems ?cv = [[5], [5], [5]]"
    by (simp add: elems_def deref_def read_at_def get_nth_def upt_rec)
  have c: "cmp_u8 [5] [5] = 0" by (simp add: cmp_u8_def)
  have s: "cvec_search ?cv [5] cmp_u8 0 True = Inr 1"
    by (simp add: cvec_search_def cvec_count_id int_of_size_t_id size_t_of_int_id INT_MAX_def
        INT_MIN_def bsearch_def bsearch_loop.simps Let_def get_nth_def read_at_def cmp_u8_def)
  have k: "key_sorted cmp_u8 [5] [[5], [5], [5]]" by (simp add: key_sorted_def)
  have n: "int (size_cv ?cv) \<le> INT_MAX" by (simp add: INT_MAX_def)
  from ex555_create ex555_run n e k c s show ?thesis by (intro conjI)
qed

text \<open>
  C6, amended. For a well formed array of at most \<open>INT_MAX\<close> elements and
  \<open>0 \<le> start \<le> Count()\<close>, with the range from
  \<open>start\<close> sorted relative to the key when the sorted mode is asked for: \<open>Search\<close> returns
  \<open>-1\<close> exactly when no element of the range compares equal to the key, and otherwise the
  index of an element of the range that compares equal; in the unsorted mode that is the
  first such element.
\<close>

theorem cvec_search_result:
  assumes inv: "cvec_inv cv" and sz: "int (size_cv cv) \<le> INT_MAX"
    and start: "0 \<le> start" "start \<le> cvec_count cv"
    and srt: "sorted_flag \<longrightarrow> key_sorted cmp key (drop (nat start) (elems cv))"
  shows "\<exists>r. cvec_search cv key cmp start sorted_flag = Inr r \<and>
     ((r = - 1 \<and> (\<forall>i. nat start \<le> i \<and> i < size_cv cv \<longrightarrow> cmp key (elems cv ! i) \<noteq> 0)) \<or>
      (start \<le> r \<and> r < cvec_count cv \<and> cmp key (elems cv ! nat r) = 0 \<and>
       (\<not> sorted_flag \<longrightarrow> (\<forall>i. nat start \<le> i \<and> i < nat r \<longrightarrow> cmp key (elems cv ! i) \<noteq> 0))))"
proof -
  let ?e = "elemsz cv" and ?n = "size_cv cv"
  define s where "s = nat start"
  have st: "nat start = s" by (simp add: s_def)
  define f where "f = (\<lambda>i. cmp key (read_at (data cv) (get_nth cv (int s) + int (i * ?e)) ?e))"
  let ?num = "?n - s"
  from inv have e: "0 < ?e" by (simp add: cvec_inv_def)
  then have e0: "(?e = 0) = False" by simp
  note cnt = cvec_count_id [OF sz]
  from start have s: "s \<le> ?n" "start = int s" by (simp_all add: cnt s_def)
  have idx: "int (s + i) \<le> INT_MAX" if "i < ?n - s" for i
    using that sz by simp
  have f: "f i = cmp key (elems cv ! (s + i))" if "i < ?num" for i
  proof -
    from that have "s + i < ?n" by simp
    then show ?thesis unfolding f_def by (simp only: read_slot)
  qed
  from s(1) have "cvec_count cv - int s = int ?num" by (simp add: cnt)
  moreover from sz have "int ?num \<le> INT_MAX" by simp
  ultimately have num: "size_t_of_int (cvec_count cv - int s) = ?num"
    and ov: "(cvec_count cv - int s < INT_MIN) = False"
    by (simp_all add: size_t_of_int_int INT_MIN_def)
  have pre: "int s \<ge> 0 \<and> nat (int s) \<le> size_cv cv" using s(1) by simp
  have range: "(\<forall>i<?num. f i \<noteq> 0) \<longleftrightarrow> (\<forall>i. s \<le> i \<and> i < ?n \<longrightarrow> cmp key (elems cv ! i) \<noteq> 0)"
  proof
    assume a: "\<forall>i<?num. f i \<noteq> 0"
    show "\<forall>i. s \<le> i \<and> i < ?n \<longrightarrow> cmp key (elems cv ! i) \<noteq> 0"
    proof (intro allI impI)
      fix i assume i: "s \<le> i \<and> i < ?n"
      then have "i - s < ?num" by arith
      with a f [of "i - s"] i show "cmp key (elems cv ! i) \<noteq> 0" by auto
    qed
  next
    assume a: "\<forall>i. s \<le> i \<and> i < ?n \<longrightarrow> cmp key (elems cv ! i) \<noteq> 0"
    show "\<forall>i<?num. f i \<noteq> 0"
    proof (intro allI impI)
      fix i assume i: "i < ?num"
      with a have "cmp key (elems cv ! (s + i)) \<noteq> 0" by simp
      with f [OF i] show "f i \<noteq> 0" by simp
    qed
  qed
  show ?thesis
  proof (cases sorted_flag)
    case True
    with srt have ks: "key_sorted cmp key (drop s (elems cv))" by (simp add: st)
    have mono: "\<forall>i j. i \<le> j \<and> j < ?num \<longrightarrow> sgn (f j) \<le> sgn (f i)"
    proof (intro allI impI)
      fix i j assume ij: "i \<le> j \<and> j < ?num"
      show "sgn (f j) \<le> sgn (f i)"
      proof (cases "i = j")
        case True
        then show ?thesis by simp
      next
        case False
        with ij have "i < j" "j < length (drop s (elems cv))" by simp_all
        with ks have "sgn (cmp key (drop s (elems cv) ! j)) \<le> sgn (cmp key (drop s (elems cv) ! i))"
          unfolding key_sorted_def sorted_wrt_iff_nth_less by blast
        with ij s(1) show ?thesis by (simp add: f)
      qed
    qed
    from bsearch_loop_sound [where num = ?num and key = key and mem = "data cv"
        and base = "get_nth cv (int s)" and sz = ?e and compar = cmp and u = ?num and l = 0,
        OF mono [unfolded f_def]]
    consider (none) "bsearch_loop key (data cv) (get_nth cv (int s)) ?e cmp 0 ?num = None"
        "\<forall>i<?num. f i \<noteq> 0"
      | (some) idx where "idx < ?num"
        "bsearch_loop key (data cv) (get_nth cv (int s)) ?e cmp 0 ?num =
           Some (get_nth cv (int s) + int (idx * ?e))" "f idx = 0"
      unfolding f_def by auto
    then show ?thesis
    proof cases
      case none
      from none(2) range have "\<forall>i. s \<le> i \<and> i < ?n \<longrightarrow> cmp key (elems cv ! i) \<noteq> 0" by blast
      moreover have "cvec_search cv key cmp start sorted_flag = Inr (- 1)"
        unfolding cvec_search_def Let_def s(2) bsearch_def num ov using pre True none(1)
        by (simp only: if_True if_False option.case simp_thms)
      ultimately show ?thesis unfolding st by blast
    next
      case some
      have "cvec_search cv key cmp start sorted_flag = Inr (int (s + idx))"
        unfolding cvec_search_def Let_def s(2) bsearch_def num ov e0 using pre True some(2)
        by (simp only: if_True if_False option.case simp_thms slot_index [OF e idx [OF some(1)]])
      moreover from some(1,3) have "cmp key (elems cv ! (s + idx)) = 0" by (simp add: f)
      moreover from some(1) s have "start \<le> int (s + idx)" "int (s + idx) < cvec_count cv"
        by (auto simp: cnt)
      ultimately show ?thesis unfolding st using True by (intro exI [of _ "int (s + idx)"]) (simp del: of_nat_add)
    qed
  next
    case False
    have "f i = cmp key (read_at (data cv) (get_nth cv (int s) + int (i * ?e)) ?e)" for i
      by (simp add: f_def)
    from lfind_loop_gen [where cnt = ?num and g = f and compar = cmp and key = key
        and mem = "data cv" and result = "get_nth cv (int s)" and sz = ?e, OF this]
    consider (none) "lfind_loop key (data cv) (get_nth cv (int s)) ?num ?e cmp = None"
        "\<forall>i<?num. f i \<noteq> 0"
      | (some) k where "k < ?num"
        "lfind_loop key (data cv) (get_nth cv (int s)) ?num ?e cmp =
           Some (get_nth cv (int s) + int (k * ?e))" "f k = 0" "\<forall>i<k. f i \<noteq> 0"
      by auto
    then show ?thesis
    proof cases
      case none
      from none(2) range have "\<forall>i. s \<le> i \<and> i < ?n \<longrightarrow> cmp key (elems cv ! i) \<noteq> 0" by blast
      moreover have "cvec_search cv key cmp start sorted_flag = Inr (- 1)"
        unfolding cvec_search_def Let_def s(2) lfind_def num ov using pre False none(1)
        by (simp only: if_True if_False option.case simp_thms)
      ultimately show ?thesis unfolding st by blast
    next
      case some
      have "cvec_search cv key cmp start sorted_flag = Inr (int (s + k))"
        unfolding cvec_search_def Let_def s(2) lfind_def num ov e0 using pre False some(2)
        by (simp only: if_True if_False option.case simp_thms slot_index [OF e idx [OF some(1)]])
      moreover from some(1,3) have "cmp key (elems cv ! (s + k)) = 0" by (simp add: f)
      moreover from some(1) s have "start \<le> int (s + k)" "int (s + k) < cvec_count cv"
        by (auto simp: cnt)
      moreover have "\<forall>i. s \<le> i \<and> i < s + k \<longrightarrow> cmp key (elems cv ! i) \<noteq> 0"
      proof (intro allI impI)
        fix i assume i: "s \<le> i \<and> i < s + k"
        then have "i - s < k" by arith
        with some(4) have "f (i - s) \<noteq> 0" by blast
        moreover from i some(1) have "i - s < ?num" by arith
        ultimately show "cmp key (elems cv ! i) \<noteq> 0" using f [of "i - s"] i by simp
      qed
      ultimately show ?thesis unfolding st by (intro exI [of _ "int (s + k)"]) (simp del: of_nat_add)
    qed
  qed
qed

theorem cvec_search_result_witness:
  "cvec_inv \<lparr>data = [1, 3, 5, 7], size_cv = 4, capacity = 4, elemsz = 1,
       clean_cv = (None :: unit cleanup)\<rparr> \<and>
   int (size_cv \<lparr>data = [1, 3, 5, 7], size_cv = 4, capacity = 4, elemsz = 1,
       clean_cv = (None :: unit cleanup)\<rparr>) \<le> INT_MAX \<and>
   (0 :: int) \<le> 1 \<and>
   1 \<le> cvec_count \<lparr>data = [1, 3, 5, 7], size_cv = 4, capacity = 4, elemsz = 1,
       clean_cv = (None :: unit cleanup)\<rparr> \<and>
   key_sorted cmp_u8 [5] (drop (nat 1) (elems \<lparr>data = [1, 3, 5, 7], size_cv = 4,
       capacity = 4, elemsz = 1, clean_cv = (None :: unit cleanup)\<rparr>)) \<and>
   cvec_search \<lparr>data = [1, 3, 5, 7], size_cv = 4, capacity = 4, elemsz = 1,
       clean_cv = (None :: unit cleanup)\<rparr> [5] cmp_u8 1 True = Inr 2 \<and>
   cmp_u8 [5] (elems \<lparr>data = [1, 3, 5, 7], size_cv = 4, capacity = 4, elemsz = 1,
       clean_cv = (None :: unit cleanup)\<rparr> ! 2) = 0 \<and>
   (\<exists>r. cvec_search \<lparr>data = [1, 3, 5, 7], size_cv = 4, capacity = 4, elemsz = 1,
       clean_cv = (None :: unit cleanup)\<rparr> [5] cmp_u8 1 True = Inr r \<and> 1 \<le> r \<and> r < 4)"
proof -
  let ?cv = "\<lparr>data = [1, 3, 5, 7], size_cv = 4, capacity = 4, elemsz = 1,
       clean_cv = (None :: unit cleanup)\<rparr>"
  have inv: "cvec_inv ?cv" by (simp add: cvec_inv_def)
  have n: "int (size_cv ?cv) \<le> INT_MAX" by (simp add: INT_MAX_def)
  have s1: "(0 :: int) \<le> 1" by simp
  have s2: "1 \<le> cvec_count ?cv" by (simp add: cvec_count_id INT_MAX_def)
  have e: "elems ?cv = [[1], [3], [5], [7]]"
    by (simp add: elems_def deref_def read_at_def get_nth_def upt_rec)
  have ks: "key_sorted cmp_u8 [5] (drop (nat 1) (elems ?cv))"
    unfolding e by (simp add: key_sorted_def cmp_u8_def)
  then have srt: "True \<longrightarrow> key_sorted cmp_u8 [5] (drop (nat 1) (elems ?cv))" by simp
  have r: "cvec_search ?cv [5] cmp_u8 1 True = Inr 2"
    by (simp add: cvec_search_def cvec_count_id int_of_size_t_id size_t_of_int_id INT_MAX_def
        INT_MIN_def bsearch_def bsearch_loop.simps Let_def get_nth_def read_at_def cmp_u8_def)
  have m: "cmp_u8 [5] (elems ?cv ! 2) = 0" unfolding e by (simp add: cmp_u8_def)
  from cvec_search_result [OF inv n s1 s2 srt]
  have "\<exists>r. cvec_search ?cv [5] cmp_u8 1 True = Inr r \<and> 1 \<le> r \<and> r < 4"
    unfolding r by (simp add: cvec_count_id INT_MAX_def)
  with inv n s1 s2 ks r m show ?thesis by (intro conjI)
qed

text \<open>
  C7. On a well formed array of at most \<open>INT_MAX\<close> elements \<open>First()\<close> is the address of
  slot 0 when there is an element
  and \<open>NULL\<close> when there is none; \<open>Next\<close> of a live slot that is not the last is that
  address plus the element size, and \<open>Next\<close> of the last live slot is \<open>NULL\<close>. So after
  inserting \<open>e1..en\<close>, \<open>n\<close> at most \<open>INT_MAX\<close>, each at index 0, into a fresh array the
  traversal ends within \<open>n\<close> steps, without an error, and reads \<open>en, .., e1\<close>.
\<close>

theorem cvec_iteration_order:
  assumes inv: "cvec_inv cv" and sz: "int (size_cv cv) \<le> INT_MAX"
    and create: "cvec_create elemsize hint fn = Inr cv0"
    and bytes: "\<forall>x\<in>set es. elemsize \<le> length x"
    and n: "int (length es) \<le> INT_MAX"
  shows "(size_cv cv \<noteq> 0 \<longrightarrow> cvec_first cv = Some (get_nth cv 0)) \<and>
         (size_cv cv = 0 \<longrightarrow> cvec_first cv = None) \<and>
         (\<forall>i. Suc i < size_cv cv \<longrightarrow>
            cvec_next cv (get_nth cv (int i)) =
              Inr (Some (get_nth cv (int i) + int (elemsz cv)))) \<and>
         (size_cv cv \<noteq> 0 \<longrightarrow> cvec_next cv (get_nth cv (cvec_count cv - 1)) = Inr None) \<and>
         (\<exists>cv'. cvec_run cv0 (map (\<lambda>x. InsertAt x 0) es) = Inr cv' \<and>
            cvec_traverse (length es) cv' = Some (Inr (rev (map (take elemsize) es))))"
proof -
  have a: "size_cv cv \<noteq> 0 \<longrightarrow> cvec_first cv = Some (get_nth cv 0)"
    and b: "size_cv cv = 0 \<longrightarrow> cvec_first cv = None"
    by (simp_all add: cvec_first_def get_nth_def)
  have c: "\<forall>i. Suc i < size_cv cv \<longrightarrow>
            cvec_next cv (get_nth cv (int i)) =
              Inr (Some (get_nth cv (int i) + int (elemsz cv)))"
    using cvec_next_inner [OF inv _ sz] by (simp add: get_nth_def algebra_simps)
  have d: "size_cv cv \<noteq> 0 \<longrightarrow> cvec_next cv (get_nth cv (cvec_count cv - 1)) = Inr None"
    by (simp add: cvec_next_last [OF sz])
  from create have c0: "cvec_inv cv0" "size_cv cv0 = 0" "elemsz cv0 = elemsize" "elems cv0 = []"
    using cvec_inv_create [of elemsize hint fn cv0] elems_create by auto
  from bytes have ok: "ops_ok (elemsz cv0) (size_cv cv0) (map (\<lambda>x. InsertAt x 0) es)"
    by (simp add: front_inserts_ok c0)
  from n c0(2)
  have "int (size_cv cv0 + length (map (\<lambda>x. InsertAt x 0) es)) \<le> INT_MAX" by simp
  from cvec_run_ok [OF c0(1) ok this] obtain cv' where
    cv': "cvec_run cv0 (map (\<lambda>x. InsertAt x 0) es) = Inr cv'" "cvec_inv cv'"
      "size_cv cv' = length es" "elems cv' = rev (map (take elemsize) es)"
    by (auto simp: c0 front_inserts_spec)
  from cv'(3) n have "int (size_cv cv') \<le> INT_MAX" by simp
  from cvec_traverse_elems [OF cv'(2) _ this, of "length es"] cv'
  have e: "\<exists>cv'. cvec_run cv0 (map (\<lambda>x. InsertAt x 0) es) = Inr cv' \<and>
            cvec_traverse (length es) cv' = Some (Inr (rev (map (take elemsize) es)))"
    by simp
  from a b c d e show ?thesis by blast
qed

theorem cvec_iteration_order_witness:
  "cvec_inv \<lparr>data = [3, 4, 1, 2, 5, 6, 0, 0], size_cv = 3, capacity = 4, elemsz = 2,
      clean_cv = (None :: unit cleanup)\<rparr> \<and>
   int (size_cv \<lparr>data = [3, 4, 1, 2, 5, 6, 0, 0], size_cv = 3, capacity = 4, elemsz = 2,
      clean_cv = (None :: unit cleanup)\<rparr>) \<le> INT_MAX \<and>
   cvec_create 1 2 (None :: unit cleanup) =
     Inr \<lparr>data = [0, 0], size_cv = 0, capacity = 2, elemsz = 1, clean_cv = None\<rparr> \<and>
   list_all (\<lambda>x. 1 \<le> length x) [[7 :: byte], [8], [9]] \<and>
   int (length [[7 :: byte], [8], [9]]) \<le> INT_MAX \<and>
   cvec_first \<lparr>data = [3, 4, 1, 2, 5, 6, 0, 0], size_cv = 3, capacity = 4, elemsz = 2,
      clean_cv = (None :: unit cleanup)\<rparr> = Some 0 \<and>
   cvec_next \<lparr>data = [3, 4, 1, 2, 5, 6, 0, 0], size_cv = 3, capacity = 4, elemsz = 2,
      clean_cv = (None :: unit cleanup)\<rparr> 0 = Inr (Some 2) \<and>
   cvec_next \<lparr>data = [3, 4, 1, 2, 5, 6, 0, 0], size_cv = 3, capacity = 4, elemsz = 2,
      clean_cv = (None :: unit cleanup)\<rparr> 2 = Inr (Some 4) \<and>
   cvec_next \<lparr>data = [3, 4, 1, 2, 5, 6, 0, 0], size_cv = 3, capacity = 4, elemsz = 2,
      clean_cv = (None :: unit cleanup)\<rparr> 4 = Inr None \<and>
   (\<exists>cv'. cvec_run \<lparr>data = [0, 0], size_cv = 0, capacity = 2, elemsz = 1,
              clean_cv = (None :: unit cleanup)\<rparr>
            (map (\<lambda>x. InsertAt x 0) [[7], [8], [9]]) = Inr cv' \<and>
          cvec_traverse 3 cv' = Some (Inr [[9], [8], [7]]))"
proof -
  let ?cv = "\<lparr>data = [3, 4, 1, 2, 5, 6, 0, 0], size_cv = 3, capacity = 4, elemsz = 2,
      clean_cv = (None :: unit cleanup)\<rparr>"
  have b: "\<forall>x\<in>set [[7 :: byte], [8], [9]]. 1 \<le> length x" by simp
  have sz: "int (size_cv ?cv) \<le> INT_MAX" by (simp add: INT_MAX_def)
  have n: "int (length [[7 :: byte], [8], [9]]) \<le> INT_MAX" by (simp add: INT_MAX_def)
  note t = cvec_iteration_order [OF ex_vec_inv [of "None :: unit cleanup"] sz ex_vec1_create b n]
  from t have "size_cv ?cv \<noteq> 0 \<longrightarrow> cvec_first ?cv = Some (get_nth ?cv 0)" by blast
  then have f: "cvec_first ?cv = Some 0" by (simp add: get_nth_def)
  from t have c: "\<forall>i. Suc i < size_cv ?cv \<longrightarrow>
      cvec_next ?cv (get_nth ?cv (int i)) = Inr (Some (get_nth ?cv (int i) + int (elemsz ?cv)))"
    by blast
  from c [rule_format, of 0] have n0: "cvec_next ?cv 0 = Inr (Some 2)"
    by (simp add: get_nth_def)
  from c [rule_format, of 1] have n1: "cvec_next ?cv 2 = Inr (Some 4)"
    by (simp add: get_nth_def)
  from t
  have "size_cv ?cv \<noteq> 0 \<longrightarrow> cvec_next ?cv (get_nth ?cv (cvec_count ?cv - 1)) = Inr None"
    by blast
  then have n2: "cvec_next ?cv 4 = Inr None"
    by (simp add: get_nth_def cvec_count_id INT_MAX_def)
  have l3: "length [[7 :: byte], [8], [9]] = 3" by simp
  have r3: "rev (map (take 1) [[7 :: byte], [8], [9]]) = [[9], [8], [7]]" by simp
  from t have e: "\<exists>cv'. cvec_run \<lparr>data = [0, 0], size_cv = 0, capacity = 2, elemsz = 1,
              clean_cv = (None :: unit cleanup)\<rparr>
            (map (\<lambda>x. InsertAt x 0) [[7], [8], [9]]) = Inr cv' \<and>
          cvec_traverse 3 cv' = Some (Inr [[9], [8], [7]])"
    unfolding l3 r3 by blast
  have l: "list_all (\<lambda>x. 1 \<le> length x) [[7 :: byte], [8], [9]]" by simp
  from f n0 n1 n2 e l sz n ex_vec_inv [of "None :: unit cleanup"] ex_vec1_create
  show ?thesis by (intro conjI)
qed

text \<open>
  C10. On an array of at most \<open>INT_MAX\<close> elements \<open>Search\<close> from \<open>start = Count()\<close> passes
  the assertion and returns \<open>-1\<close>, in the sorted and in the unsorted mode, whatever the
  key and comparator. The array is a \<open>const\<close> argument of \<open>cvec_search\<close>, which returns
  nothing but the index.
\<close>

theorem cvec_search_empty_range:
  assumes "int (size_cv cv) \<le> INT_MAX"
  shows "cvec_search cv key cmp (cvec_count cv) sorted_flag = Inr (- 1)"
proof -
  have "size_t_of_int 0 = 0" by (simp add: size_t_of_int_def)
  then show ?thesis
    by (simp add: cvec_search_def cvec_count_id [OF assms] INT_MIN_def bsearch_def lfind_def
        bsearch_loop.simps)
qed

theorem cvec_search_empty_range_witness:
  "int (size_cv \<lparr>data = [5, 5, 5, 0], size_cv = 3, capacity = 4, elemsz = 1,
       clean_cv = (None :: unit cleanup)\<rparr>) \<le> INT_MAX \<and>
   cvec_count \<lparr>data = [5, 5, 5, 0], size_cv = 3, capacity = 4, elemsz = 1,
       clean_cv = (None :: unit cleanup)\<rparr> = 3 \<and>
   cvec_search \<lparr>data = [5, 5, 5, 0], size_cv = 3, capacity = 4, elemsz = 1,
       clean_cv = (None :: unit cleanup)\<rparr> [5] cmp_u8 3 True = Inr (- 1) \<and>
   cvec_search \<lparr>data = [5, 5, 5, 0], size_cv = 3, capacity = 4, elemsz = 1,
       clean_cv = (None :: unit cleanup)\<rparr> [5] cmp_u8 3 False = Inr (- 1)"
proof -
  let ?cv = "\<lparr>data = [5, 5, 5, 0], size_cv = 3, capacity = 4, elemsz = 1,
       clean_cv = (None :: unit cleanup)\<rparr>"
  have n: "int (size_cv ?cv) \<le> INT_MAX" by (simp add: INT_MAX_def)
  then have c: "cvec_count ?cv = 3" by (simp add: cvec_count_id)
  from cvec_search_empty_range [OF n, of "[5]" cmp_u8 True]
  have t: "cvec_search ?cv [5] cmp_u8 3 True = Inr (- 1)" unfolding c .
  from cvec_search_empty_range [OF n, of "[5]" cmp_u8 False]
  have f: "cvec_search ?cv [5] cmp_u8 3 False = Inr (- 1)" unfolding c .
  from n c t f show ?thesis by (intro conjI)
qed

section \<open>Disposal of both containers\<close>

text \<open>
  C8. For an array of at most \<open>INT_MAX\<close> elements and a well formed table of at most
  \<open>INT_MAX\<close> buckets: disposal returns, and with a cleanup callback it calls it on the live
  elements of the array, once each and in index order, and on the values of the blobs of
  the table, once each, a well formed table holding one blob for each live key; with no
  callback the world is left as it was. The calls made are those of a fold over the
  elements, or the values.
\<close>

theorem dispose_cleans_each_once:
  assumes "cmap_inv cm" and nb: "int (nbuckets cm) \<le> INT_MAX"
    and sz: "int (size_cv cv) \<le> INT_MAX"
  shows "cvec_dispose cv w =
           Inr (case clean_cv cv of None \<Rightarrow> w | Some f \<Rightarrow> fold f (elems cv) w) \<and>
         cmap_dispose cm u =
           Inr (case clean cm of None \<Rightarrow> u
                | Some f \<Rightarrow> fold f (map get_value (entries cm)) u) \<and>
         distinct (map get_key (entries cm)) \<and>
         cmap_count cm = int (length (entries cm))"
proof -
  from assms(1) have len: "length (buckets cm) = nbuckets cm" by (simp add: cmap_inv_def)
  have "cmap_dispose cm u =
          Inr (case clean cm of None \<Rightarrow> u
               | Some f \<Rightarrow> fold f (map get_value (entries cm)) u)"
  proof (cases "clean cm")
    case None
    have "fold (\<lambda>b. call_cleanup None (get_value b)) xs u = u" for xs :: "blob list"
      by (induction xs) (simp_all add: call_cleanup_None)
    with None show ?thesis by (simp add: cmap_dispose_fold [OF len nb])
  next
    case (Some f)
    then show ?thesis
      by (simp add: cmap_dispose_fold [OF len nb] fold_map comp_def call_cleanup_Some)
  qed
  with assms(1) show ?thesis
    by (simp add: cvec_dispose_fold [OF sz] cmap_inv_def cmap_count_def)
qed

theorem dispose_cleans_each_once_witness:
  "cmap_inv \<lparr>buckets = [[Blob ''b'' [2]], [Blob ''ab'' [3], Blob ''a'' [4]]],
       nbuckets = 2, valsz = 1, count = 3, clean = Some (\<lambda>bytes log. log @ [bytes])\<rparr> \<and>
   int (nbuckets \<lparr>buckets = [[Blob ''b'' [2]], [Blob ''ab'' [3], Blob ''a'' [4]]],
       nbuckets = 2, valsz = 1, count = 3,
       clean = Some (\<lambda>(bytes :: byte list) log. log @ [bytes])\<rparr>) \<le> INT_MAX \<and>
   int (size_cv \<lparr>data = [3, 4, 1, 2, 5, 6, 0, 0], size_cv = 3, capacity = 4, elemsz = 2,
       clean_cv = Some (\<lambda>(bytes :: byte list) log. log @ [bytes])\<rparr>) \<le> INT_MAX \<and>
   cvec_dispose \<lparr>data = [3, 4, 1, 2, 5, 6, 0, 0], size_cv = 3, capacity = 4, elemsz = 2,
       clean_cv = Some (\<lambda>bytes log. log @ [bytes])\<rparr> [] = Inr [[3, 4], [1, 2], [5, 6]] \<and>
   cmap_dispose \<lparr>buckets = [[Blob ''b'' [2]], [Blob ''ab'' [3], Blob ''a'' [4]]],
       nbuckets = 2, valsz = 1, count = 3, clean = Some (\<lambda>bytes log. log @ [bytes])\<rparr> [] =
     Inr [[2], [3], [4]] \<and>
   cvec_dispose \<lparr>data = [3, 4, 1, 2, 5, 6, 0, 0], size_cv = 3, capacity = 4, elemsz = 2,
       clean_cv = None\<rparr> ([] :: byte list list) = Inr []"
proof -
  let ?log = "\<lambda>(bytes :: byte list) log. log @ [bytes]"
  let ?T = "\<lparr>buckets = [[Blob ''b'' [2]], [Blob ''ab'' [3], Blob ''a'' [4]]],
       nbuckets = 2, valsz = 1, count = 3, clean = Some ?log\<rparr>"
  let ?V = "\<lparr>data = [3, 4, 1, 2, 5, 6, 0, 0], size_cv = 3, capacity = 4, elemsz = 2,
       clean_cv = Some ?log\<rparr>"
  let ?W = "\<lparr>data = [3, 4, 1, 2, 5, 6, 0, 0], size_cv = 3, capacity = 4, elemsz = 2,
       clean_cv = (None :: byte list list cleanup)\<rparr>"
  have inv: "cmap_inv ?T" by (rule ex_log_inv)
  have e: "elems ?V = [[3, 4], [1, 2], [5, 6]]"
    by (simp add: elems_def deref_def read_at_def get_nth_def upt_rec)
  have nb: "int (nbuckets ?T) \<le> INT_MAX" by (simp add: INT_MAX_def)
  have sv: "int (size_cv ?V) \<le> INT_MAX" by (simp add: INT_MAX_def)
  have sw: "int (size_cv ?W) \<le> INT_MAX" by (simp add: INT_MAX_def)
  from dispose_cleans_each_once [OF inv nb sv, where w = "[]" and u = "[]"]
  have "cvec_dispose ?V [] = Inr [[3, 4], [1, 2], [5, 6]]"
    and "cmap_dispose ?T [] = Inr [[2], [3], [4]]"
    by (simp_all add: e entries_def)
  moreover from dispose_cleans_each_once [OF inv nb sw, where w = "[]" and u = "[]"]
  have "cvec_dispose ?W [] = Inr []" by simp
  ultimately show ?thesis using inv nb sv by (intro conjI)
qed

end
